theory Spec2Isabelle
  imports Complex_Main "HOL-Library.Word"
begin

section \<open>Strings\<close>

text \<open>
  A JavaScript string is a sequence of UTF-16 code units; \<open>length\<close> counts code units, as
  \<open>String.prototype.length\<close> does. Text handed to the splitter is a \<open>jsstring\<close>. File
  paths, player names and command words are plain ASCII and are kept as HOL strings.
\<close>

type_synonym code_unit = "16 word"
type_synonym jsstring = "code_unit list"

definition js :: "string \<Rightarrow> jsstring" where
  "js s = map of_char s"

text \<open>
  The characters matched by the regular expression class \<open>\s\<close> and removed by
  \<open>String.prototype.trim\<close>: ECMAScript WhiteSpace and LineTerminator.
\<close>

definition is_space :: "code_unit \<Rightarrow> bool" where
  "is_space c \<longleftrightarrow>
     c = 0x0009 \<or> c = 0x000A \<or> c = 0x000B \<or> c = 0x000C \<or> c = 0x000D \<or> c = 0x0020 \<or>
     c = 0x00A0 \<or> c = 0x1680 \<or> (0x2000 \<le> c \<and> c \<le> 0x200A) \<or> c = 0x2028 \<or> c = 0x2029 \<or>
     c = 0x202F \<or> c = 0x205F \<or> c = 0x3000 \<or> c = 0xFEFF"

definition trim :: "jsstring \<Rightarrow> jsstring" where
  "trim s = rev (dropWhile is_space (rev (dropWhile is_space s)))"

text \<open>The class \<open>[.!?\n]\<close> of the splitter's regular expression, and \<open>[\n]\<close>.\<close>

definition is_term :: "code_unit \<Rightarrow> bool" where
  "is_term c \<longleftrightarrow> c = 0x2E \<or> c = 0x21 \<or> c = 0x3F \<or> c = 0x0A"

definition is_newline :: "code_unit \<Rightarrow> bool" where
  "is_newline c \<longleftrightarrow> c = 0x0A"

section \<open>The text splitter (\<open>splitText\<close>)\<close>

definition maxLength :: nat where
  "maxLength = 240"

text \<open>
  \<open>text.match(/[^.!?\n]+[.!?\n]*|[\n]+/g)\<close>: all matches, scanning left to right. At a
  position holding a character outside the class, the first alternative takes the longest
  run of such characters and then the longest run of class characters (both quantifiers are
  greedy and the two classes are complementary, so no backtracking shortens the match). At
  a newline only the second alternative matches. At \<open>.\<close>, \<open>!\<close> or \<open>?\<close> nothing matches and
  the scan moves on by one character.
\<close>

function matchAll :: "jsstring \<Rightarrow> jsstring list" where
  "matchAll [] = []"
| "matchAll (c # cs) =
     (if \<not> is_term c then
        (let body = takeWhile (\<lambda>x. \<not> is_term x) (c # cs);
             rest = dropWhile (\<lambda>x. \<not> is_term x) (c # cs)
         in (body @ takeWhile is_term rest) # matchAll (dropWhile is_term rest))
      else if is_newline c then
        takeWhile is_newline (c # cs) # matchAll (dropWhile is_newline (c # cs))
      else matchAll cs)"
  by pat_completeness auto
termination
proof (relation "measure length", goal_cases)
  case 1
  show ?case by simp
next
  case (2 c cs body rest)
  have "length (dropWhile is_term (dropWhile (\<lambda>x. \<not> is_term x) cs)) \<le> length cs"
    by (rule order.trans [OF length_dropWhile_le length_dropWhile_le])
  with 2 show ?case by simp
next
  case (3 c cs)
  have "length (dropWhile is_newline cs) \<le> length cs"
    by (rule length_dropWhile_le)
  with 3 show ?case by simp
next
  case 4
  then show ?case by simp
qed

text \<open>\<open>text.match(...) || [text]\<close>: \<open>match\<close> yields \<open>null\<close> when nothing matched.\<close>

definition parts :: "jsstring \<Rightarrow> jsstring list" where
  "parts text = (let m = matchAll text in if m = [] then [text] else m)"

text \<open>
  \<open>trimmed.split(/\s+/)\<close>: the pieces between maximal whitespace runs; a leading or
  trailing run leaves an empty piece, and the empty string splits to one empty piece.
\<close>

function split_ws :: "jsstring \<Rightarrow> jsstring list" where
  "split_ws s =
     (let w = takeWhile (\<lambda>c. \<not> is_space c) s;
          r = dropWhile (\<lambda>c. \<not> is_space c) s
      in if r = [] then [w] else w # split_ws (dropWhile is_space r))"
  by pat_completeness auto
termination
proof (relation "measure length", goal_cases)
  case 1
  show ?case by simp
next
  case (2 s w r)
  then obtain x xs where r: "dropWhile (\<lambda>c. \<not> is_space c) s = x # xs"
    by (cases "dropWhile (\<lambda>c. \<not> is_space c) s") auto
  then have "is_space x"
    using hd_dropWhile [of "\<lambda>c. \<not> is_space c" s] by auto
  then have "length (dropWhile is_space (x # xs)) \<le> length xs"
    by (simp add: length_dropWhile_le)
  moreover have "length (x # xs) \<le> length s"
    using length_dropWhile_le [of "\<lambda>c. \<not> is_space c" s] r by simp
  ultimately show ?case using 2 r by simp
qed

declare split_ws.simps [simp del]

text \<open>
  The inner loop over \<open>words\<close>, with the running buffer \<open>current\<close>. The result lists the
  chunks pushed by the loop followed by the final \<open>if (current) chunks.push(current)\<close>.
\<close>

fun packWords :: "jsstring \<Rightarrow> jsstring list \<Rightarrow> jsstring list" where
  "packWords current [] = (if current \<noteq> [] then [current] else [])"
| "packWords current (word # ws) =
     (if word = [] then packWords current ws
      else if current = [] then packWords word ws
      else if length current + length word + 1 \<le> maxLength
        then packWords (current @ [0x20] @ word) ws
      else current # packWords word ws)"

text \<open>One iteration of the outer loop: the chunks contributed by one part.\<close>

definition splitPart :: "jsstring \<Rightarrow> jsstring list" where
  "splitPart part =
     (let trimmed = trim part
      in if trimmed = [] then []
         else if length trimmed \<le> maxLength then [trimmed]
         else packWords [] (split_ws trimmed))"

definition splitText :: "jsstring \<Rightarrow> jsstring list" where
  "splitText text = concat (map splitPart (parts text))"

text \<open>The text with every whitespace character removed.\<close>

definition strip :: "jsstring \<Rightarrow> jsstring" where
  "strip s = filter (\<lambda>c. \<not> is_space c) s"

text \<open>The words of a text: its maximal runs of non-whitespace characters.\<close>

definition words_of :: "jsstring \<Rightarrow> jsstring list" where
  "words_of s = filter (\<lambda>w. w \<noteq> []) (split_ws s)"

text \<open>
  The pieces of a string cut after every run of characters of the class \<open>[.!?\n]\<close>: a cut
  falls exactly between a character of the class and a following character outside it. A
  word with sentence punctuation inside, such as \<open>v1.5\<close>, has more than one piece; a word
  with punctuation only at its end is one piece. \<open>push c ps\<close> puts \<open>c\<close> in front of the
  first piece.
\<close>

fun push :: "'a \<Rightarrow> 'a list list \<Rightarrow> 'a list list" where
  "push c [] = [[c]]"
| "push c (p # ps) = (c # p) # ps"

fun pieces :: "jsstring \<Rightarrow> jsstring list" where
  "pieces [] = []"
| "pieces (c # s) =
     (if s \<noteq> [] \<and> is_term c \<and> \<not> is_term (hd s) then [c] # pieces s else push c (pieces s))"

text \<open>
  The pieces of all the words of a text, found in one pass: a piece ends before whitespace,
  at the end of the text, and between a class character and a following character outside
  the class. It is \<open>concat (map pieces (words_of s))\<close> (lemma \<open>pieces_words\<close> below).
\<close>

fun word_pieces :: "jsstring \<Rightarrow> jsstring list" where
  "word_pieces [] = []"
| "word_pieces (c # s) =
     (if is_space c then word_pieces s
      else if s = [] \<or> is_space (hd s) \<or> (is_term c \<and> \<not> is_term (hd s)) then [c] # word_pieces s
      else push c (word_pieces s))"

section \<open>Errors and promise outcomes\<close>

text \<open>
  What a rejected promise or a thrown exception carries. \<open>PlaybackError\<close> holds the message
  of the \<open>Error\<close> thrown by \<open>tryPlayers\<close>.
\<close>

datatype error =
    UnlinkError
  | SpawnError
  | PlaybackError string
  | GenerateError
  | WriteError
  | TaskError
  | FetchError
  | BodyError
  | ShellError

section \<open>Temp-file cleanup (\<open>cleanupFiles\<close>)\<close>

text \<open>
  The file system is the set of paths that exist. \<open>unlink\<close> of \<open>fs/promises\<close> rejects when
  the path does not exist, and when the operating system refuses the deletion (\<open>denied\<close>,
  a parameter); otherwise it removes the path.
\<close>

definition unlink :: "(string \<Rightarrow> bool) \<Rightarrow> string \<Rightarrow> string set \<Rightarrow> (error + unit) \<times> string set" where
  "unlink denied file disk =
     (if file \<in> disk \<and> \<not> denied file then (Inr (), disk - {file}) else (Inl UnlinkError, disk))"

text \<open>\<open>promise.catch(() => {})\<close>: a rejection becomes a fulfilment.\<close>

definition catch_ignore :: "error + unit \<Rightarrow> error + unit" where
  "catch_ignore r = (case r of Inl e \<Rightarrow> Inr () | Inr v \<Rightarrow> Inr v)"

text \<open>\<open>Promise.all\<close>: rejects as soon as one member rejects, otherwise fulfils.\<close>

fun promise_all :: "(error + unit) list \<Rightarrow> error + unit" where
  "promise_all [] = Inr ()"
| "promise_all (Inl e # rs) = Inl e"
| "promise_all (Inr v # rs) = promise_all rs"

text \<open>
  \<open>files.map((file) => unlink(file).catch(() => {}))\<close>: one deletion per path, each with
  its own handler. The deletions are started in list order.
\<close>

fun unlink_each :: "(string \<Rightarrow> bool) \<Rightarrow> string list \<Rightarrow> string set \<Rightarrow> (error + unit) list \<times> string set" where
  "unlink_each denied [] disk = ([], disk)"
| "unlink_each denied (file # rest) disk =
     (let (r, disk1) = unlink denied file disk;
          (rs, disk2) = unlink_each denied rest disk1
      in (catch_ignore r # rs, disk2))"

definition cleanupFiles :: "(string \<Rightarrow> bool) \<Rightarrow> string list \<Rightarrow> string set \<Rightarrow> (error + unit) \<times> string set" where
  "cleanupFiles denied fs disk =
     (if length fs = 0 then (Inr (), disk)
      else (let (rs, disk') = unlink_each denied fs disk in (promise_all rs, disk')))"

section \<open>Sample encoding (\<open>writeWav\<close>)\<close>

text \<open>
  A JavaScript number: a finite value, \<open>NaN\<close> or an infinity. An element read from a
  \<open>Float32Array\<close> is such a number. Signed zero is not distinguished.
\<close>

datatype jsnum = Num real | NaN | PosInf | NegInf

fun js_min :: "jsnum \<Rightarrow> jsnum \<Rightarrow> jsnum" where
  "js_min NaN b = NaN"
| "js_min a NaN = NaN"
| "js_min NegInf b = NegInf"
| "js_min a NegInf = NegInf"
| "js_min PosInf b = b"
| "js_min a PosInf = a"
| "js_min (Num x) (Num y) = Num (min x y)"

fun js_max :: "jsnum \<Rightarrow> jsnum \<Rightarrow> jsnum" where
  "js_max NaN b = NaN"
| "js_max a NaN = NaN"
| "js_max PosInf b = PosInf"
| "js_max a PosInf = PosInf"
| "js_max NegInf b = b"
| "js_max a NegInf = a"
| "js_max (Num x) (Num y) = Num (max x y)"

text \<open>\<open>s < 0\<close>: false for \<open>NaN\<close>.\<close>

fun js_lt0 :: "jsnum \<Rightarrow> bool" where
  "js_lt0 (Num x) = (x < 0)"
| "js_lt0 NegInf = True"
| "js_lt0 PosInf = False"
| "js_lt0 NaN = False"

text \<open>
  \<open>s * k\<close> for a positive constant \<open>k\<close>. The exact product is rounded to a double by
  \<open>rnd\<close>, a parameter. A \<open>Float32Array\<close> element times \<open>0x8000\<close> stays far inside the
  double range, so a finite operand gives a finite product.
\<close>

fun js_times :: "(real \<Rightarrow> real) \<Rightarrow> jsnum \<Rightarrow> real \<Rightarrow> jsnum" where
  "js_times rnd (Num x) k = Num (rnd (x * k))"
| "js_times rnd NaN k = NaN"
| "js_times rnd PosInf k = PosInf"
| "js_times rnd NegInf k = NegInf"

text \<open>\<open>Math.max(-1, Math.min(1, samples[i]))\<close>\<close>

definition clamp_sample :: "jsnum \<Rightarrow> jsnum" where
  "clamp_sample x = js_max (Num (- 1)) (js_min (Num 1) x)"

text \<open>\<open>s < 0 ? s * 0x8000 : s * 0x7fff\<close>\<close>

definition scale_sample :: "(real \<Rightarrow> real) \<Rightarrow> jsnum \<Rightarrow> jsnum" where
  "scale_sample rnd s = (if js_lt0 s then js_times rnd s 32768 else js_times rnd s 32767)"

text \<open>Truncation towards zero, the integer part taken by \<open>ToInt16\<close>.\<close>

definition trunc :: "real \<Rightarrow> int" where
  "trunc x = (if 0 \<le> x then \<lfloor>x\<rfloor> else \<lceil>x\<rceil>)"

text \<open>Reduction of an integer modulo \<open>2^16\<close> into the signed 16-bit range.\<close>

definition wrap16 :: "int \<Rightarrow> int" where
  "wrap16 n = (n + 32768) mod 65536 - 32768"

text \<open>
  The conversion performed by \<open>DataView.setInt16\<close>: \<open>NaN\<close> and the infinities give 0,
  any other number is truncated and wrapped.
\<close>

fun to_int16 :: "jsnum \<Rightarrow> int" where
  "to_int16 (Num x) = wrap16 (trunc x)"
| "to_int16 NaN = 0"
| "to_int16 PosInf = 0"
| "to_int16 NegInf = 0"

text \<open>The 16-bit value written for one sample, and the loop over the sample buffer.\<close>

definition encode_sample :: "(real \<Rightarrow> real) \<Rightarrow> jsnum \<Rightarrow> int" where
  "encode_sample rnd x = to_int16 (scale_sample rnd (clamp_sample x))"

definition encode_samples :: "(real \<Rightarrow> real) \<Rightarrow> jsnum list \<Rightarrow> int list" where
  "encode_samples rnd samples = map (encode_sample rnd) samples"

text \<open>
  What is assumed of the rounding of a product to a double: it is monotone and leaves the
  representable values 0, 32767 and -32768 unchanged.
\<close>

definition rounding :: "(real \<Rightarrow> real) \<Rightarrow> bool" where
  "rounding rnd \<longleftrightarrow>
     (\<forall>x y. x \<le> y \<longrightarrow> rnd x \<le> rnd y) \<and> rnd 0 = 0 \<and> rnd 32767 = 32767 \<and> rnd (- 32768) = - 32768"

section \<open>The player fallback engine (\<open>playAudio\<close>, \<open>tryPlayers\<close>)\<close>

record player =
  cmd :: "string list"
  name :: string

text \<open>
  What one \<open>runCommand\<close> call meets: \<open>Bun.spawn\<close> throws (the executable cannot be
  started), or the process runs and \<open>proc.exited\<close> yields its exit code. The environment
  is a function of the number of earlier spawn attempts and of the command, so the same
  command may behave differently from one attempt to the next.
\<close>

datatype run_outcome = Exited int | SpawnThrows

type_synonym runner = "nat \<Rightarrow> string list \<Rightarrow> run_outcome"

text \<open>
  The module state: the cached player name (\<open>None\<close> for \<open>null\<close>), together with the
  commands handed to \<open>Bun.spawn\<close> so far and the toast messages shown so far.
\<close>

record audio_state =
  lastWorkingPlayer :: "string option"
  attempts :: "string list list"
  toasts :: "string list"

text \<open>\<open>runCommand\<close> has no handler: a throwing \<open>Bun.spawn\<close> rejects its promise.\<close>

definition runCommand :: "runner \<Rightarrow> string list \<Rightarrow> audio_state \<Rightarrow> (error + int) \<times> audio_state" where
  "runCommand run c st =
     (let st1 = st\<lparr>attempts := attempts st @ [c]\<rparr>
      in case run (length (attempts st)) c of
           SpawnThrows \<Rightarrow> (Inl SpawnError, st1)
         | Exited code \<Rightarrow> (Inr code, st1))"

definition getInstallHelp :: "string \<Rightarrow> string list \<Rightarrow> string" where
  "getInstallHelp platform failedPlayers =
     (if platform = ''darwin'' then
        (if ''ffplay'' \<in> set failedPlayers
         then ''TTS audio failed. Install ffmpeg: brew install ffmpeg''
         else ''TTS audio playback failed. Try: brew install ffmpeg'')
      else if platform = ''win32'' then
        (if ''ffplay'' \<in> set failedPlayers
         then ''TTS audio failed. Install ffmpeg: winget install ffmpeg''
         else ''TTS audio playback failed. Try: winget install ffmpeg.Gyan'')
      else if platform = ''linux'' then
        (if ''paplay'' \<in> set failedPlayers \<and> ''aplay'' \<in> set failedPlayers
         then ''TTS audio failed. Install: sudo apt install pulseaudio-utils alsa-utils''
         else if ''ffplay'' \<in> set failedPlayers \<and> ''mpv'' \<in> set failedPlayers
         then ''TTS audio failed. Install: sudo apt install ffmpeg''
         else ''TTS audio playback failed. Install: sudo apt install pulseaudio-utils alsa-utils ffmpeg'')
      else ''TTS audio playback failed. Install ffmpeg or a system audio player'')"

text \<open>
  The optional toast: \<open>None\<close> when no client was passed, \<open>Some ok\<close> when one was, with
  \<open>ok\<close> telling whether \<open>showToast\<close> resolves. A failing toast is caught and ignored.
\<close>

definition showToast :: "bool option \<Rightarrow> string \<Rightarrow> audio_state \<Rightarrow> audio_state" where
  "showToast client message st =
     (case client of None \<Rightarrow> st | Some ok \<Rightarrow> st\<lparr>toasts := toasts st @ [message]\<rparr>)"

text \<open>\<open>errors.join(sep)\<close>\<close>

fun join :: "string \<Rightarrow> string list \<Rightarrow> string" where
  "join sep [] = []"
| "join sep [x] = x"
| "join sep (x # y # ys) = x @ sep @ join sep (y # ys)"

text \<open>
  The cache-hit attempt at the head of \<open>tryPlayers\<close>. \<open>Inr True\<close>: the cached player
  exited with 0 and \<open>tryPlayers\<close> returns. \<open>Inr False\<close>: control goes on to the loop. An
  empty name is falsy, like \<open>null\<close>.
\<close>

definition tryCached :: "runner \<Rightarrow> player list \<Rightarrow> audio_state \<Rightarrow> (error + bool) \<times> audio_state" where
  "tryCached run players st =
     (case lastWorkingPlayer st of
        None \<Rightarrow> (Inr False, st)
      | Some n \<Rightarrow>
          if n = [] then (Inr False, st)
          else (case find (\<lambda>p. name p = n) players of
                  None \<Rightarrow> (Inr False, st)
                | Some cached \<Rightarrow>
                    (case runCommand run (cmd cached) st of
                       (Inl e, st1) \<Rightarrow> (Inl e, st1)
                     | (Inr status, st1) \<Rightarrow>
                         if status = 0 then (Inr True, st1)
                         else (Inr False, st1\<lparr>lastWorkingPlayer := None\<rparr>))))"

text \<open>
  The loop \<open>for (const player of players)\<close>, with the list \<open>errors\<close> of the names that
  failed so far. It ends by returning from \<open>tryPlayers\<close> (\<open>Played\<close>), by running out of
  players (\<open>Exhausted\<close>) or by an exception out of \<open>runCommand\<close>.
\<close>

datatype loop_exit = Played | Exhausted "string list"

fun tryEach :: "runner \<Rightarrow> player list \<Rightarrow> string list \<Rightarrow> audio_state \<Rightarrow> (error + loop_exit) \<times> audio_state" where
  "tryEach run [] errors st = (Inr (Exhausted errors), st)"
| "tryEach run (p # ps) errors st =
     (case runCommand run (cmd p) st of
        (Inl e, st1) \<Rightarrow> (Inl e, st1)
      | (Inr status, st1) \<Rightarrow>
          if status = 0 then (Inr Played, st1\<lparr>lastWorkingPlayer := Some (name p)\<rparr>)
          else tryEach run ps (errors @ [name p]) st1)"

definition tryPlayers ::
  "runner \<Rightarrow> player list \<Rightarrow> string \<Rightarrow> bool option \<Rightarrow> audio_state \<Rightarrow> (error + unit) \<times> audio_state" where
  "tryPlayers run players platform client st =
     (case tryCached run players st of
        (Inl e, st1) \<Rightarrow> (Inl e, st1)
      | (Inr True, st1) \<Rightarrow> (Inr (), st1)
      | (Inr False, st1) \<Rightarrow>
          (case tryEach run players [] st1 of
             (Inl e, st2) \<Rightarrow> (Inl e, st2)
           | (Inr Played, st2) \<Rightarrow> (Inr (), st2)
           | (Inr (Exhausted errors), st2) \<Rightarrow>
               (Inl (PlaybackError (''All audio players failed: '' @ join '', '' errors)),
                showToast client (getInstallHelp platform errors) st2)))"

text \<open>The candidate list that \<open>playAudio\<close> builds for a platform and a file.\<close>

definition ffplay :: "string \<Rightarrow> player" where
  "ffplay filePath =
     \<lparr>cmd = [''ffplay'', ''-autoexit'', ''-nodisp'', ''-loglevel'', ''quiet'', filePath], name = ''ffplay''\<rparr>"

definition candidates :: "string \<Rightarrow> string \<Rightarrow> player list" where
  "candidates platform filePath =
     (if platform = ''darwin'' then
        [\<lparr>cmd = [''afplay'', filePath], name = ''afplay''\<rparr>, ffplay filePath]
      else if platform = ''win32'' then
        [\<lparr>cmd = [''powershell'', ''-c'',
                  ''(New-Object Media.SoundPlayer '' @ [CHR 0x27] @ filePath @ [CHR 0x27] @ '').PlaySync()''],
           name = ''Media.SoundPlayer''\<rparr>,
         ffplay filePath,
         \<lparr>cmd = [''wmplayer'', ''/close'', ''/prefetch:1'', filePath], name = ''Windows Media Player''\<rparr>]
      else
        [\<lparr>cmd = [''paplay'', filePath], name = ''paplay''\<rparr>,
         \<lparr>cmd = [''aplay'', filePath], name = ''aplay''\<rparr>,
         \<lparr>cmd = [''mpv'', ''--no-video'', ''--no-terminal'', filePath], name = ''mpv''\<rparr>,
         ffplay filePath])"

definition playAudio ::
  "runner \<Rightarrow> string \<Rightarrow> string \<Rightarrow> bool option \<Rightarrow> audio_state \<Rightarrow> (error + unit) \<times> audio_state" where
  "playAudio run platform filePath client st =
     tryPlayers run (candidates platform filePath) platform client st"

text \<open>The commands spawned by a call: those added to the log between two states.\<close>

definition spawned_by :: "audio_state \<Rightarrow> audio_state \<Rightarrow> string list list" where
  "spawned_by st st' = drop (length (attempts st)) (attempts st')"

text \<open>The first command spawned by a call, if it spawned any.\<close>

definition first_spawned :: "audio_state \<Rightarrow> audio_state \<Rightarrow> string list option" where
  "first_spawned st st' = (case spawned_by st st' of [] \<Rightarrow> None | c # cs \<Rightarrow> Some c)"

text \<open>
  At attempt number \<open>t\<close> the player's command runs and exits with a non-zero code, or
  with 0.
\<close>

definition fails_at :: "runner \<Rightarrow> nat \<Rightarrow> player \<Rightarrow> bool" where
  "fails_at run t p = (case run t (cmd p) of Exited k \<Rightarrow> k \<noteq> 0 | SpawnThrows \<Rightarrow> False)"

definition succeeds_at :: "runner \<Rightarrow> nat \<Rightarrow> player \<Rightarrow> bool" where
  "succeeds_at run t p = (run t (cmd p) = Exited 0)"

text \<open>\<open>players.find(p => p.name === n)\<close> on the candidate list of a platform.\<close>

definition candidate_named :: "string \<Rightarrow> string \<Rightarrow> string \<Rightarrow> player option" where
  "candidate_named platform filePath n = find (\<lambda>p. name p = n) (candidates platform filePath)"

section \<open>Configuration\<close>

text \<open>The fields of \<open>TtsConfig\<close> read by the functions modelled here.\<close>

record config =
  enabled :: bool
  maxWorkers :: int
  httpFormat :: string

section \<open>The HTTP backend (\<open>speakHttp\<close>)\<close>

text \<open>
  What the call meets outside the program: the outcome of \<open>fetch\<close> (it throws, or gives a
  response with its \<open>ok\<close> flag and whether \<open>arrayBuffer()\<close> succeeds), whether
  \<open>Bun.write\<close> succeeds, the platform, which shell commands succeed (a shell command
  that fails throws), and the temp path built for an extension.
\<close>

datatype fetch_outcome = FetchThrows | Response bool bool

record http_env =
  fetched :: fetch_outcome
  write_ok :: bool
  os_platform :: string
  shell_ok :: "string \<Rightarrow> bool"
  tmp_path :: "string \<Rightarrow> string"

datatype http_event = Fetch | Write string | Shell string string

definition shell :: "http_env \<Rightarrow> string \<Rightarrow> string \<Rightarrow> (error + unit) \<times> http_event list" where
  "shell env c filePath = (if shell_ok env c then Inr () else Inl ShellError, [Shell c filePath])"

text \<open>
  \<open>playAudio\<close> of the HTTP backend: one command on macOS and Windows, three nested
  attempts elsewhere, all inside an outer \<open>try\<close> whose handler is empty.
\<close>

definition playAudioHttp :: "http_env \<Rightarrow> string \<Rightarrow> (error + unit) \<times> http_event list" where
  "playAudioHttp env filePath =
     (let (r, evs) =
        (if os_platform env = ''darwin'' then shell env ''afplay'' filePath
         else if os_platform env = ''win32'' then shell env ''powershell'' filePath
         else (case shell env ''paplay'' filePath of
                 (Inr v, e1) \<Rightarrow> (Inr v, e1)
               | (Inl x, e1) \<Rightarrow>
                   (case shell env ''aplay'' filePath of
                      (Inr v, e2) \<Rightarrow> (Inr v, e1 @ e2)
                    | (Inl y, e2) \<Rightarrow>
                        (let (r3, e3) = shell env ''mpv'' filePath in (r3, e1 @ e2 @ e3)))))
      in (catch_ignore r, evs))"

text \<open>The body of the \<open>try\<close> block of \<open>speakHttp\<close>.\<close>

definition speakHttp_body :: "config \<Rightarrow> http_env \<Rightarrow> (error + unit) \<times> http_event list" where
  "speakHttp_body c env =
     (case fetched env of
        FetchThrows \<Rightarrow> (Inl FetchError, [Fetch])
      | Response ok body_ok \<Rightarrow>
          if \<not> ok then (Inr (), [Fetch])
          else if \<not> body_ok then (Inl BodyError, [Fetch])
          else (let ext = (if httpFormat c = ''mp3'' then ''mp3'' else ''wav'');
                    audioPath = tmp_path env ext
                in if \<not> write_ok env then (Inl WriteError, [Fetch, Write audioPath])
                   else (let (r, evs) = playAudioHttp env audioPath
                         in (r, [Fetch, Write audioPath] @ evs))))"

definition speakHttp :: "jsstring \<Rightarrow> config \<Rightarrow> http_env \<Rightarrow> (error + unit) \<times> http_event list" where
  "speakHttp text c env =
     (if \<not> enabled c \<or> text = [] \<or> length (trim text) = 0 then (Inr (), [])
      else (let (r, evs) = speakHttp_body c env in (catch_ignore r, evs)))"

section \<open>The streaming coordinator (\<open>speakLocal\<close>)\<close>

text \<open>
  JavaScript runs one task at a time, so the module variable \<open>cancelToken\<close> and the
  shared \<open>config\<close> object can change under a running \<open>speakLocal\<close> only while it is
  suspended at an \<open>await\<close>. The places where it suspends:
\<close>

datatype await_point =
    AwaitInit
  | AwaitGenerate nat
  | AwaitWrite nat
  | AwaitTask nat
  | AwaitPlay nat

text \<open>
  The environment of one invocation. \<open>bumps a\<close> is the number of \<open>cancelLocalSpeak\<close>
  calls made by other code during the suspension at \<open>a\<close>, and \<open>enabled_after a\<close> is what
  other code writes to \<open>config.enabled\<close> meanwhile (\<open>None\<close>: nothing). The other fields
  are the outcomes of the awaited operations, by chunk index: \<open>generate_ok\<close> for
  \<open>localModel.generate\<close>, \<open>write_path\<close> for \<open>writeTempWav\<close> (the path of the file it
  wrote, or \<open>None\<close> when it rejects), \<open>task_result\<close> for the pool task, \<open>play_result\<close>
  for \<open>playAudio\<close>. \<open>completion\<close> is the order in which the workers finish the pool tasks
  when they are left running (a task that is not listed is never finished),
  \<open>generated_during_play i\<close> is the number of further tasks they finish while chunk \<open>i\<close> is
  played (before \<open>cancelLocalSpeak\<close> runs, when it does during that play), and \<open>denied\<close>
  tells for which paths the operating system refuses \<open>unlink\<close>.
\<close>

record speak_env =
  init_ready :: bool
  init_localModel :: bool
  init_pool :: bool
  bumps :: "await_point \<Rightarrow> nat"
  enabled_after :: "await_point \<Rightarrow> bool option"
  generate_ok :: "nat \<Rightarrow> bool"
  write_path :: "nat \<Rightarrow> string option"
  task_result :: "nat \<Rightarrow> string option"
  completion :: "nat list"
  generated_during_play :: "nat \<Rightarrow> nat"
  play_result :: "nat \<Rightarrow> error + unit"
  denied :: "string \<Rightarrow> bool"

datatype event = PlayStart nat string | PlayEnd nat "error + unit"

text \<open>
  The state threaded through an invocation: \<open>cancelToken\<close>, the shared \<open>config\<close>
  object, the local array \<open>files\<close>, the files on disk, the log of \<open>playAudio\<close> calls and
  returns, and the pool tasks of the invocation: those still running (in the order in which
  they would finish), those a worker has finished, and those whose handle was rejected by a
  shutdown of the pool.
\<close>

record speak_state =
  cancelToken :: nat
  cfg :: config
  files :: "string list"
  disk :: "string set"
  trace :: "event list"
  pending :: "nat list"
  settled :: "nat list"
  rejected :: "nat list"

definition fresh :: "config \<Rightarrow> nat \<Rightarrow> string set \<Rightarrow> speak_state" where
  "fresh c token d =
     \<lparr>cancelToken = token, cfg = c, files = [], disk = d, trace = [], pending = [], settled = [],
      rejected = []\<rparr>"

text \<open>
  Modelled from the spec: \<open>shutdown()\<close> of the worker pool (\<open>pool.ts\<close>), which "terminates
  all workers, invalidates all pending and future task handles (they must reject/fail
  rather than hang), and is idempotent". The tasks still running are never finished and
  write no file; their handles are rejected.
\<close>

definition pool_shutdown :: "speak_state \<Rightarrow> speak_state" where
  "pool_shutdown st = st\<lparr>rejected := rejected st @ pending st, pending := []\<rparr>"

text \<open>
  Resuming after the suspension at \<open>a\<close>: what other code did meanwhile is applied. Each
  call of \<open>cancelLocalSpeak\<close> adds one to \<open>cancelToken\<close> and, when there is a pool, shuts it
  down (\<open>if (pool) { pool.shutdown(); pool = null; ... }\<close>).
\<close>

definition resume :: "speak_env \<Rightarrow> await_point \<Rightarrow> speak_state \<Rightarrow> speak_state" where
  "resume env a st =
     (let st1 = st\<lparr>cancelToken := cancelToken st + bumps env a,
                    cfg := (case enabled_after env a of None \<Rightarrow> cfg st
                            | Some b \<Rightarrow> (cfg st)\<lparr>enabled := b\<rparr>)\<rparr>
      in if 0 < bumps env a then pool_shutdown st1 else st1)"

text \<open>The loop guard \<open>!config.enabled || token !== cancelToken\<close>.\<close>

definition stopped :: "nat \<Rightarrow> speak_state \<Rightarrow> bool" where
  "stopped token st \<longleftrightarrow> \<not> enabled (cfg st) \<or> token \<noteq> cancelToken st"

text \<open>How a promise ends: fulfilled, rejected, or never settled.\<close>

datatype settle = Resolved | Rejected error | NeverSettles

text \<open>
  \<open>await playAudio(path)\<close> for chunk \<open>i\<close>: the call is logged, the invocation is
  suspended until the player engine is done, and the outcome is logged.
\<close>

definition await_play :: "speak_env \<Rightarrow> nat \<Rightarrow> string \<Rightarrow> speak_state \<Rightarrow> speak_state" where
  "await_play env i path st =
     (let st1 = resume env (AwaitPlay i) (st\<lparr>trace := trace st @ [PlayStart i path]\<rparr>)
      in st1\<lparr>trace := trace st1 @ [PlayEnd i (play_result env i)]\<rparr>)"

text \<open>The loop of \<open>playDirect\<close>, from index \<open>i\<close>, over \<open>n\<close> chunks.\<close>

function playDirect :: "speak_env \<Rightarrow> nat \<Rightarrow> nat \<Rightarrow> nat \<Rightarrow> speak_state \<Rightarrow> settle \<times> speak_state" where
  "playDirect env token n i st =
     (if i < n then
        if stopped token st then (Resolved, st)
        else (let st1 = resume env (AwaitGenerate i) st
              in if \<not> generate_ok env i then (Rejected GenerateError, st1)
                 else (case write_path env i of
                         None \<Rightarrow> (Rejected WriteError, resume env (AwaitWrite i) st1)
                       | Some filePath \<Rightarrow>
                           (let st2 = (resume env (AwaitWrite i) st1)
                                        \<lparr>disk := insert filePath (disk st1),
                                         files := files st1 @ [filePath]\<rparr>
                            in if stopped token st2 then (Resolved, st2)
                               else (let st3 = await_play env i filePath st2
                                     in case play_result env i of
                                          Inl e \<Rightarrow> (Rejected e, st3)
                                        | Inr v \<Rightarrow> playDirect env token n (Suc i) st3))))
      else (Resolved, st))"
  by pat_completeness auto
termination
  by (relation "measure (\<lambda>(env, token, n, i, st). n - i)") auto

declare playDirect.simps [simp del]

text \<open>
  Modelled from the spec: the worker pool (\<open>pool.ts\<close>), whose \<open>enqueue\<close> "returns a handle
  resolved when that chunk's audio is generated and written to a file"; "multiple chunks
  may be enqueued before any resolves", and the workers go on while the invocation is
  suspended. \<open>pool_settles env k\<close>: the workers finish the next \<open>k\<close> tasks, in the order
  \<open>completion\<close>. A task finished with a path has written that file; a task finished with
  \<open>None\<close> has failed and its handle rejects.
\<close>

definition pool_settles :: "speak_env \<Rightarrow> nat \<Rightarrow> speak_state \<Rightarrow> speak_state" where
  "pool_settles env k st =
     st\<lparr>pending := drop k (pending st),
        settled := settled st @ take k (pending st),
        disk := disk st \<union> set (List.map_filter (task_result env) (take k (pending st)))\<rparr>"

text \<open>
  Modelled from the spec: the workers of the pool (\<open>pool.ts\<close>), left running, finish every
  task that is due ("already-scheduled work" is left to "complete or be discarded by the
  pool on shutdown"). Applied to the state in which an invocation has settled, it gives the
  state once the workers are done with the tasks that invocation left pending.
\<close>

definition pool_finishes :: "speak_env \<Rightarrow> speak_state \<Rightarrow> speak_state" where
  "pool_finishes env st = pool_settles env (length (pending st)) st"

text \<open>How the promise of a pool task ends for the loop that awaits it.\<close>

datatype task_end = Path string | Fails | Hangs

definition task_end_of :: "speak_env \<Rightarrow> nat \<Rightarrow> task_end" where
  "task_end_of env i = (case task_result env i of None \<Rightarrow> Fails | Some path \<Rightarrow> Path path)"

text \<open>
  Modelled from the spec: \<open>await tasks[i]\<close>, on a handle of the worker pool (\<open>pool.ts\<close>). A
  task that is already finished, or already rejected by a shutdown, lets the loop go on at
  once. Otherwise the loop is suspended while the workers go on: when \<open>cancelLocalSpeak\<close>
  runs meanwhile, the tasks due before task \<open>i\<close> have been finished, the pool is shut down
  and the handle is rejected; else the loop resumes when task \<open>i\<close> is finished, after the
  tasks due before it; and when task \<open>i\<close> is never finished, the workers finish every task
  that is due and the loop stays suspended for ever ("a hung worker is a caller-visible
  outage").
\<close>

definition await_task :: "speak_env \<Rightarrow> nat \<Rightarrow> speak_state \<Rightarrow> task_end \<times> speak_state" where
  "await_task env i st =
     (let ahead = length (takeWhile (\<lambda>j. j \<noteq> i) (pending st))
      in if i \<in> set (settled st) then (task_end_of env i, resume env (AwaitTask i) st)
         else if i \<in> set (rejected st) then (Fails, resume env (AwaitTask i) st)
         else if 0 < bumps env (AwaitTask i)
           then (Fails, resume env (AwaitTask i) (pool_settles env ahead st))
         else if i \<in> set (pending st)
           then (task_end_of env i, resume env (AwaitTask i) (pool_settles env (Suc ahead) st))
         else (Hangs, pool_finishes env st))"

text \<open>
  The loop of \<open>playFromWorkers\<close>, from index \<open>i\<close>, over \<open>n\<close> tasks. While chunk \<open>i\<close> is
  played the workers finish \<open>generated_during_play env i\<close> further tasks.
\<close>

function playFromWorkers :: "speak_env \<Rightarrow> nat \<Rightarrow> nat \<Rightarrow> nat \<Rightarrow> speak_state \<Rightarrow> settle \<times> speak_state" where
  "playFromWorkers env token n i st =
     (if i < n then
        if stopped token st then (Resolved, st)
        else (case await_task env i st of
                (Hangs, st1) \<Rightarrow> (NeverSettles, st1)
              | (Fails, st1) \<Rightarrow> (Rejected TaskError, st1)
              | (Path path, st1) \<Rightarrow>
                  (let st2 = st1\<lparr>files := files st1 @ [path]\<rparr>
                   in if stopped token st2 then (Resolved, st2)
                      else (let st3 = await_play env i path
                                        (pool_settles env (generated_during_play env i) st2)
                            in case play_result env i of
                                 Inl e \<Rightarrow> (Rejected e, st3)
                               | Inr v \<Rightarrow> playFromWorkers env token n (Suc i) st3)))
      else (Resolved, st))"
  by pat_completeness auto
termination
  by (relation "measure (\<lambda>(env, token, n, i, st). n - i)") auto

declare playFromWorkers.simps [simp del]

text \<open>
  \<open>loop().finally(async () => { await cleanupFiles(files) })\<close>: once the loop has
  settled, the cleanup runs; the result is the loop's, unless the cleanup itself rejects.
\<close>

definition finally_cleanup :: "speak_env \<Rightarrow> settle \<times> speak_state \<Rightarrow> settle \<times> speak_state" where
  "finally_cleanup env rs =
     (case rs of
        (NeverSettles, st) \<Rightarrow> (NeverSettles, st)
      | (r, st) \<Rightarrow>
          (let (c, d) = cleanupFiles (denied env) (files st) (disk st)
           in (case c of Inl e \<Rightarrow> Rejected e | Inr v \<Rightarrow> r, st\<lparr>disk := d\<rparr>)))"

definition speakLocal :: "jsstring \<Rightarrow> speak_env \<Rightarrow> speak_state \<Rightarrow> settle \<times> speak_state" where
  "speakLocal text env st =
     (if \<not> enabled (cfg st) then (Resolved, st)
      else (let trimmed = trim text
            in if trimmed = [] then (Resolved, st)
               else (let token = cancelToken st;
                         st1 = resume env AwaitInit st
                     in if \<not> init_ready env then (Resolved, st1)
                        else if token \<noteq> cancelToken st1 then (Resolved, st1)
                        else (let chunks = splitText trimmed
                              in if length chunks = 0 then (Resolved, st1)
                                 else (let st2 = st1\<lparr>files := []\<rparr>
                                       in if token \<noteq> cancelToken st2 then (Resolved, st2)
                                          else if maxWorkers (cfg st2) \<le> 0 \<and> init_localModel env then
                                            finally_cleanup env (playDirect env token (length chunks) 0 st2)
                                          else if \<not> init_pool env \<or> token \<noteq> cancelToken st2 then (Resolved, st2)
                                          else finally_cleanup env
                                                 (playFromWorkers env token (length chunks) 0
                                                    (st2\<lparr>pending := filter (\<lambda>j. j < length chunks) (completion env)\<rparr>)))))))"

text \<open>The chunk indices of the \<open>playAudio\<close> calls in a log, in order.\<close>

fun play_calls :: "event list \<Rightarrow> nat list" where
  "play_calls [] = []"
| "play_calls (PlayStart i p # evs) = i # play_calls evs"
| "play_calls (PlayEnd i r # evs) = play_calls evs"

text \<open>
  The log of \<open>k\<close> plays made one after the other in index order: each call is followed by
  its own return before the next call.
\<close>

definition sequential_plays :: "(nat \<Rightarrow> string) \<Rightarrow> (nat \<Rightarrow> error + unit) \<Rightarrow> nat \<Rightarrow> event list" where
  "sequential_plays path result k = concat (map (\<lambda>i. [PlayStart i (path i), PlayEnd i (result i)]) [0..<k])"

text \<open>
  The invocation runs the in-process synthesizer (\<open>playDirect\<close>) rather than the pool.
\<close>

definition direct_mode :: "config \<Rightarrow> speak_env \<Rightarrow> bool" where
  "direct_mode c env \<longleftrightarrow> maxWorkers c \<le> 0 \<and> init_localModel env"

text \<open>The path of the file of chunk \<open>i\<close>, as the loop of the mode receives it.\<close>

definition chunk_path :: "config \<Rightarrow> speak_env \<Rightarrow> nat \<Rightarrow> string" where
  "chunk_path c env i =
     (case (if direct_mode c env then write_path env i else task_result env i) of
        None \<Rightarrow> [] | Some path \<Rightarrow> path)"

text \<open>
  Nothing cancels or disables the invocation while it is suspended: no \<open>cancelLocalSpeak\<close>
  call, and \<open>config.enabled\<close> is not set to false.
\<close>

definition undisturbed :: "speak_env \<Rightarrow> bool" where
  "undisturbed env \<longleftrightarrow> (\<forall>a. bumps env a = 0 \<and> enabled_after env a \<noteq> Some False)"

text \<open>
  The first \<open>n\<close> chunks are generated and played without a failure: in direct mode
  \<open>generate\<close> and \<open>writeTempWav\<close> succeed; in pool mode there is a pool, and each task
  settles at some time, with a path; and each \<open>playAudio\<close> call succeeds.
\<close>

definition all_succeed :: "config \<Rightarrow> speak_env \<Rightarrow> nat \<Rightarrow> bool" where
  "all_succeed c env n \<longleftrightarrow>
     (direct_mode c env \<or> init_pool env) \<and>
     (\<forall>i<n. play_result env i = Inr () \<and>
        (if direct_mode c env then generate_ok env i \<and> write_path env i \<noteq> None
         else i \<in> set (completion env) \<and> task_result env i \<noteq> None))"

text \<open>
  \<open>cancelLocalSpeak\<close> runs at a suspension that comes before the first \<open>playAudio\<close>
  call: while the back end is awaited or while the first chunk is generated.
\<close>

definition bumped_before_play :: "config \<Rightarrow> speak_env \<Rightarrow> bool" where
  "bumped_before_play c env \<longleftrightarrow>
     0 < bumps env AwaitInit +
         (if direct_mode c env then bumps env (AwaitGenerate 0) + bumps env (AwaitWrite 0)
          else bumps env (AwaitTask 0))"

subsection \<open>Example environments\<close>

text \<open>
  Two configurations, one for each mode, and an environment in which nothing fails and
  nothing interferes: both back ends are ready, chunk \<open>i\<close> gets the file \<open>wav i\<close>, every
  playback succeeds, and the pool finishes the second chunk before the first.
\<close>

definition direct_config :: config where
  "direct_config = \<lparr>enabled = True, maxWorkers = 0, httpFormat = ''wav''\<rparr>"

definition pool_config :: config where
  "pool_config = \<lparr>enabled = True, maxWorkers = 2, httpFormat = ''wav''\<rparr>"

definition wav :: "nat \<Rightarrow> string" where
  "wav i = (if i = 0 then ''chunk0.wav'' else ''chunk1.wav'')"

definition calm_env :: speak_env where
  "calm_env =
     \<lparr>init_ready = True, init_localModel = True, init_pool = True,
      bumps = (\<lambda>a. 0), enabled_after = (\<lambda>a. None),
      generate_ok = (\<lambda>i. True), write_path = (\<lambda>i. Some (wav i)),
      task_result = (\<lambda>i. Some (wav i)), completion = [1, 0],
      generated_during_play = (\<lambda>i. 0),
      play_result = (\<lambda>i. Inr ()), denied = (\<lambda>p. False)\<rparr>"

text \<open>The same environment, but every player fails on the first chunk.\<close>

definition broken_player_env :: speak_env where
  "broken_player_env =
     calm_env\<lparr>play_result :=
       (\<lambda>i. if i = 0 then Inl (PlaybackError ''All audio players failed: afplay, ffplay'')
            else Inr ())\<rparr>"

text \<open>The same environment, but \<open>cancelLocalSpeak\<close> runs once, during the suspension \<open>a\<close>.\<close>

definition cancel_at :: "await_point \<Rightarrow> speak_env" where
  "cancel_at a = calm_env\<lparr>bumps := (\<lambda>b. if b = a then 1 else 0)\<rparr>"

section \<open>Properties of the splitter\<close>

lemma is_space_0x20: "is_space 0x20"
  by (simp add: is_space_def)

lemma newline_is_space: "is_newline c \<Longrightarrow> is_space c"
  by (simp add: is_newline_def is_space_def)

lemma newline_is_term: "is_newline c \<Longrightarrow> is_term c"
  by (simp add: is_newline_def is_term_def)

lemma split_ws_last:
  "dropWhile (\<lambda>c. \<not> is_space c) s = [] \<Longrightarrow> split_ws s = [takeWhile (\<lambda>c. \<not> is_space c) s]"
  using split_ws.simps [of s] by (simp only: Let_def simp_thms if_True)

lemma split_ws_more:
  "dropWhile (\<lambda>c. \<not> is_space c) s \<noteq> [] \<Longrightarrow>
   split_ws s = takeWhile (\<lambda>c. \<not> is_space c) s
                  # split_ws (dropWhile is_space (dropWhile (\<lambda>c. \<not> is_space c) s))"
  using split_ws.simps [of s] by (simp only: Let_def simp_thms if_False)

lemma split_ws_no_space: "w \<in> set (split_ws s) \<Longrightarrow> \<forall>c\<in>set w. \<not> is_space c"
proof (induction s arbitrary: w rule: split_ws.induct)
  case (1 s)
  show ?case
  proof (cases "dropWhile (\<lambda>c. \<not> is_space c) s = []")
    case True
    with "1.prems" have "w = takeWhile (\<lambda>c. \<not> is_space c) s"
      by (simp only: split_ws_last [OF True]) simp
    then show ?thesis by (auto dest: set_takeWhileD)
  next
    case False
    with "1.prems" have "w = takeWhile (\<lambda>c. \<not> is_space c) s \<or> w \<in> set (split_ws (dropWhile is_space (dropWhile (\<lambda>c. \<not> is_space c) s)))"
      by (simp only: split_ws_more [OF False]) simp
    then show ?thesis
    proof
      assume "w = takeWhile (\<lambda>c. \<not> is_space c) s"
      then show ?thesis by (auto dest: set_takeWhileD)
    next
      assume "w \<in> set (split_ws (dropWhile is_space (dropWhile (\<lambda>c. \<not> is_space c) s)))"
      with "1.IH" [OF refl refl False] show ?thesis by blast
    qed
  qed
qed

lemma packWords_chunks:
  assumes "\<forall>w\<in>set ws. \<forall>c\<in>set w. \<not> is_space c"
    and "length current \<le> maxLength \<or> (\<forall>c\<in>set current. \<not> is_space c)"
    and "x \<in> set (packWords current ws)"
  shows "x \<noteq> [] \<and> (length x \<le> maxLength \<or> ((\<forall>c\<in>set x. \<not> is_space c) \<and> x \<in> insert current (set ws)))"
  using assms
proof (induction current ws rule: packWords.induct)
  case (1 current)
  then show ?case by (auto split: if_splits)
next
  case (2 current word ws)
  show ?case
  proof (cases "word = []")
    case True
    with 2 show ?thesis by auto
  next
    case w: False
    show ?thesis
    proof (cases "current = []")
      case True
      with w 2 show ?thesis by auto
    next
      case c: False
      show ?thesis
      proof (cases "length current + length word + 1 \<le> maxLength")
        case True
        with w c "2.prems" have "x \<in> set (packWords (current @ [0x20] @ word) ws)" by simp
        moreover from True have "length (current @ [0x20] @ word) \<le> maxLength" by simp
        ultimately have "x \<noteq> [] \<and> (length x \<le> maxLength \<or> ((\<forall>c\<in>set x. \<not> is_space c) \<and> x \<in> insert (current @ [0x20] @ word) (set ws)))"
          using "2.IH"(3) [OF w c True] "2.prems"(1) by simp
        with True show ?thesis by auto
      next
        case False
        with w c "2.prems" have "x = current \<or> x \<in> set (packWords word ws)" by simp
        then show ?thesis
        proof
          assume "x = current" with c "2.prems" show ?thesis by auto
        next
          assume "x \<in> set (packWords word ws)"
          with "2.IH"(4) [OF w c False] "2.prems"(1) show ?thesis by auto
        qed
      qed
    qed
  qed
qed

lemma splitPart_chunks:
  assumes "x \<in> set (splitPart p)"
  shows "x \<noteq> [] \<and> (length x \<le> maxLength
           \<or> ((\<forall>c\<in>set x. \<not> is_space c) \<and> x \<in> set (split_ws (trim p))))"
proof (cases "trim p = [] \<or> length (trim p) \<le> maxLength")
  case True
  with assms show ?thesis by (auto simp: splitPart_def Let_def split: if_splits)
next
  case False
  with assms have x: "x \<in> set (packWords [] (split_ws (trim p)))"
    by (simp add: splitPart_def Let_def)
  have "\<forall>w\<in>set (split_ws (trim p)). \<forall>c\<in>set w. \<not> is_space c"
    using split_ws_no_space by blast
  from packWords_chunks [OF this _ x] show ?thesis by auto
qed

lemma splitText_chunks:
  "\<forall>x\<in>set (splitText text). x \<noteq> [] \<and> (length x \<le> maxLength
      \<or> ((\<forall>c\<in>set x. \<not> is_space c) \<and> (\<exists>p\<in>set (parts text). x \<in> set (split_ws (trim p)))))"
proof
  fix x assume "x \<in> set (splitText text)"
  then obtain p where p: "p \<in> set (parts text)" and x: "x \<in> set (splitPart p)"
    by (auto simp: splitText_def)
  from splitPart_chunks [OF x] p
  show "x \<noteq> [] \<and> (length x \<le> maxLength
      \<or> ((\<forall>c\<in>set x. \<not> is_space c) \<and> (\<exists>p\<in>set (parts text). x \<in> set (split_ws (trim p)))))"
    by blast
qed

lemma strip_append: "strip (xs @ ys) = strip xs @ strip ys"
  by (simp add: strip_def)

lemma strip_dropWhile_space: "strip (dropWhile is_space s) = strip s"
  by (induction s) (simp_all add: strip_def)

lemma strip_rev: "strip (rev s) = rev (strip s)"
  by (simp add: strip_def rev_filter)

lemma strip_trim: "strip (trim s) = strip s"
  by (simp add: trim_def strip_rev strip_dropWhile_space)

lemma strip_no_space: "\<forall>c\<in>set s. \<not> is_space c \<Longrightarrow> strip s = s"
  by (simp add: strip_def)

lemma strip_takeWhile_non_space: "strip (takeWhile (\<lambda>c. \<not> is_space c) s) = takeWhile (\<lambda>c. \<not> is_space c) s"
  by (rule strip_no_space) (auto dest: set_takeWhileD)

lemma strip_split_ws: "strip (concat (split_ws s)) = strip s"
proof (induction s rule: split_ws.induct)
  case (1 s)
  let ?w = "takeWhile (\<lambda>c. \<not> is_space c) s"
  let ?r = "dropWhile (\<lambda>c. \<not> is_space c) s"
  have s: "s = ?w @ ?r" by simp
  show ?case
  proof (cases "?r = []")
    case True
    then have "split_ws s = [?w]" by (rule split_ws_last)
    moreover from True have "?w = s" by (simp add: takeWhile_eq_all_conv)
    ultimately show ?thesis by simp
  next
    case False
    then have "split_ws s = ?w # split_ws (dropWhile is_space ?r)" by (rule split_ws_more)
    then have "strip (concat (split_ws s)) = strip ?w @ strip (concat (split_ws (dropWhile is_space ?r)))"
      by (simp add: strip_append)
    also have "\<dots> = strip ?w @ strip (dropWhile is_space ?r)"
      using "1.IH" [OF refl refl False] by simp
    also have "\<dots> = strip (?w @ ?r)"
      by (simp only: strip_append strip_dropWhile_space)
    finally show ?thesis by simp
  qed
qed

lemma strip_packWords:
  "strip (concat (packWords current ws)) = strip current @ strip (concat ws)"
proof (induction current ws rule: packWords.induct)
  case (1 current)
  then show ?case by (simp add: strip_def)
next
  case (2 current word ws)
  then show ?case
    by (simp add: strip_append) (simp add: strip_def is_space_0x20)
qed

lemma strip_splitPart: "strip (concat (splitPart p)) = strip p"
proof -
  have "strip (concat (splitPart p)) = strip (trim p)"
    by (simp add: splitPart_def Let_def strip_packWords strip_split_ws) (simp add: strip_def)
  then show ?thesis by (simp add: strip_trim)
qed

lemma strip_concat_splitParts: "strip (concat (concat (map splitPart ps))) = strip (concat ps)"
  by (induction ps) (simp_all add: strip_append strip_splitPart)

lemma dropWhile_term_idem: "dropWhile is_term (dropWhile is_term s) = dropWhile is_term s"
  by (induction s) simp_all

lemma dropWhile_term_newline: "dropWhile is_term (dropWhile is_newline s) = dropWhile is_term s"
  by (induction s) (auto simp: newline_is_term)

lemma strip_newlines: "strip (takeWhile is_newline s) = []"
  by (induction s) (simp_all add: strip_def newline_is_space)

lemma strip_matchAll: "strip (concat (matchAll t)) = strip (dropWhile is_term t)"
proof (induction t rule: matchAll.induct)
  case 1
  show ?case by simp
next
  case (2 c cs)
  show ?case
  proof (cases "is_term c")
    case False
    let ?body = "takeWhile (\<lambda>x. \<not> is_term x) (c # cs)"
    let ?rest = "dropWhile (\<lambda>x. \<not> is_term x) (c # cs)"
    have m: "matchAll (c # cs) = (?body @ takeWhile is_term ?rest) # matchAll (dropWhile is_term ?rest)"
      using False by (simp add: Let_def)
    have "strip (concat (matchAll (c # cs)))
            = strip (?body @ takeWhile is_term ?rest) @ strip (concat (matchAll (dropWhile is_term ?rest)))"
      by (simp only: m concat.simps strip_append)
    also have "\<dots> = strip (?body @ takeWhile is_term ?rest) @ strip (dropWhile is_term ?rest)"
      using "2.IH"(1) [OF False refl refl] by (simp add: dropWhile_term_idem)
    also have "\<dots> = strip (?body @ (takeWhile is_term ?rest @ dropWhile is_term ?rest))"
      by (simp only: strip_append append_assoc)
    also have "\<dots> = strip (c # cs)"
      by (simp only: takeWhile_dropWhile_id)
    finally show ?thesis using False by simp
  next
    case True
    show ?thesis
    proof (cases "is_newline c")
      case nl: True
      have m: "matchAll (c # cs) = takeWhile is_newline (c # cs) # matchAll (dropWhile is_newline (c # cs))"
        using True nl by simp
      have d: "dropWhile is_term (dropWhile is_newline (c # cs)) = dropWhile is_term (c # cs)"
        by (rule dropWhile_term_newline)
      have "strip (concat (matchAll (c # cs))) = strip (concat (matchAll (dropWhile is_newline (c # cs))))"
        by (simp only: m concat.simps strip_append strip_newlines append_Nil)
      also have "\<dots> = strip (dropWhile is_term (dropWhile is_newline (c # cs)))"
        using "2.IH"(2) True nl by simp
      finally show ?thesis by (simp only: d)
    next
      case False
      with True "2.IH"(3) show ?thesis by simp
    qed
  qed
qed

lemma strip_splitText:
  "strip (concat (splitText t)) = (if matchAll t = [] then strip t else strip (dropWhile is_term t))"
  by (simp add: splitText_def parts_def Let_def strip_concat_splitParts strip_matchAll)

lemma matchAll_single:
  assumes "t \<noteq> []" "\<not> is_term (hd t)"
    and "dropWhile is_term (dropWhile (\<lambda>x. \<not> is_term x) t) = []"
  shows "matchAll t = [t]"
proof -
  from assms(1) obtain c cs where t: "t = c # cs" by (cases t) auto
  let ?body = "takeWhile (\<lambda>x. \<not> is_term x) (c # cs)"
  let ?rest = "dropWhile (\<lambda>x. \<not> is_term x) (c # cs)"
  have r: "dropWhile is_term ?rest = []"
    using assms(3) by (simp only: t)
  have "takeWhile is_term ?rest @ dropWhile is_term ?rest = ?rest"
    by (rule takeWhile_dropWhile_id)
  then have tw: "takeWhile is_term ?rest = ?rest"
    by (simp only: r append_Nil2)
  have "\<not> is_term c" using assms(2) by (simp add: t)
  then have "matchAll (c # cs) = (?body @ takeWhile is_term ?rest) # matchAll (dropWhile is_term ?rest)"
    by (simp add: Let_def)
  also have "\<dots> = [?body @ ?rest]"
    by (simp only: r tw matchAll.simps(1))
  also have "\<dots> = [c # cs]"
    by (simp only: takeWhile_dropWhile_id)
  finally show ?thesis by (simp only: t)
qed

lemma length_trim_le: "length (trim s) \<le> length s"
proof -
  have "length (trim s) \<le> length (dropWhile is_space s)"
    unfolding trim_def by (simp add: order.trans [OF length_dropWhile_le])
  also have "\<dots> \<le> length s" by (rule length_dropWhile_le)
  finally show ?thesis .
qed

lemma splitText_single:
  assumes "t \<noteq> []" "\<not> is_term (hd t)"
    and "dropWhile is_term (dropWhile (\<lambda>x. \<not> is_term x) t) = []"
    and "trim t \<noteq> []" and "length (trim t) \<le> maxLength"
  shows "splitText t = [trim t]"
proof -
  have "matchAll t = [t]"
    by (rule matchAll_single [OF assms(1-3)])
  then have "parts t = [t]"
    by (simp add: parts_def)
  then have "splitText t = splitPart t"
    by (simp add: splitText_def)
  also have "\<dots> = [trim t]"
    using assms(4,5) by (simp add: splitPart_def Let_def)
  finally show ?thesis .
qed

lemma strip_all_newlines: "list_all is_newline s \<Longrightarrow> strip s = []"
  by (induction s) (simp_all add: strip_def newline_is_space)

subsection \<open>Words longer than the limit\<close>

lemma trim_no_space: "\<forall>c\<in>set w. \<not> is_space c \<Longrightarrow> trim w = w"
proof -
  assume a: "\<forall>c\<in>set w. \<not> is_space c"
  then have "dropWhile is_space w = w"
    by (cases w) auto
  moreover from a have "dropWhile is_space (rev w) = rev w"
    by (cases "rev w") (auto simp: dropWhile_eq_self_iff)
  ultimately show ?thesis by (simp add: trim_def)
qed

lemma splitText_word:
  assumes "w \<noteq> []" and "\<forall>c\<in>set w. \<not> is_space c" and "\<forall>c\<in>set w. \<not> is_term c"
  shows "splitText w = [w]"
proof -
  have t: "trim w = w" by (rule trim_no_space [OF assms(2)])
  have dw: "dropWhile (\<lambda>x. \<not> is_term x) w = []" using assms(3) by simp
  have hd: "\<not> is_term (hd w)" using assms(1,3) by (simp add: hd_in_set)
  have "dropWhile is_term (dropWhile (\<lambda>x. \<not> is_term x) w) = []"
    by (simp only: dw dropWhile.simps)
  with assms(1) hd have "matchAll w = [w]"
    by (rule matchAll_single)
  then have p: "parts w = [w]" by (simp add: parts_def)
  have d: "dropWhile (\<lambda>c. \<not> is_space c) w = []" using assms(2) by simp
  have "takeWhile (\<lambda>c. \<not> is_space c) w = w" using assms(2) by (simp add: takeWhile_eq_all_conv)
  with split_ws_last [OF d] have "split_ws w = [w]" by simp
  with assms(1) have "packWords [] (split_ws w) = [w]" by simp
  with p t assms(1) show ?thesis by (simp add: splitText_def splitPart_def Let_def)
qed

subsection \<open>The word sequence of the chunks\<close>

lemma push_not_Nil: "push c ps \<noteq> []"
  by (cases ps) simp_all

lemma push_append: "ps \<noteq> [] \<Longrightarrow> push c (ps @ qs) = push c ps @ qs"
  by (cases ps) simp_all

lemma words_of_Nil: "words_of [] = []"
  using split_ws_last [of "[]"] by (simp add: words_of_def)

lemma words_of_dropWhile: "words_of (dropWhile is_space s) = words_of s"
proof (cases s)
  case Nil
  then show ?thesis by simp
next
  case (Cons c cs)
  show ?thesis
  proof (cases "is_space c")
    case False
    with Cons show ?thesis by simp
  next
    case True
    then have "dropWhile (\<lambda>c. \<not> is_space c) (c # cs) \<noteq> []" by simp
    from split_ws_more [OF this] True
    have "split_ws (c # cs) = [] # split_ws (dropWhile is_space cs)" by simp
    then have "words_of (c # cs) = words_of (dropWhile is_space cs)"
      by (simp add: words_of_def)
    with True Cons show ?thesis by simp
  qed
qed

lemma words_of_Cons_space: "is_space c \<Longrightarrow> words_of (c # s) = words_of s"
  using words_of_dropWhile [of "c # s"] words_of_dropWhile [of s] by simp

lemma words_of_Cons_word:
  assumes "\<not> is_space c"
  shows "words_of (c # s) = (if s = [] \<or> is_space (hd s) then [c] # words_of s else push c (words_of s))"
proof -
  let ?tw = "takeWhile (\<lambda>c. \<not> is_space c) s"
  let ?r = "dropWhile (\<lambda>c. \<not> is_space c) s"
  have tw: "takeWhile (\<lambda>c. \<not> is_space c) (c # s) = c # ?tw"
    and dw: "dropWhile (\<lambda>c. \<not> is_space c) (c # s) = ?r"
    using assms by simp_all
  show ?thesis
  proof (cases "?r = []")
    case True
    then have all: "?tw = s" by (simp add: takeWhile_eq_all_conv)
    from True have "dropWhile (\<lambda>c. \<not> is_space c) (c # s) = []" by (simp only: dw)
    from split_ws_last [OF this] have "split_ws (c # s) = [c # s]" by (simp only: tw all)
    then have l: "words_of (c # s) = [c # s]" by (simp add: words_of_def)
    show ?thesis
    proof (cases "s = []")
      case True
      with l show ?thesis by (simp add: words_of_Nil)
    next
      case False
      with \<open>?r = []\<close> have h: "\<not> is_space (hd s)" by (cases s) (auto split: if_splits)
      from split_ws_last [OF \<open>?r = []\<close>] have "split_ws s = [s]" by (simp only: all)
      with False have "words_of s = [s]" by (simp add: words_of_def)
      with l h False show ?thesis by simp
    qed
  next
    case False
    then have ne: "s \<noteq> []" by auto
    from False have "dropWhile (\<lambda>c. \<not> is_space c) (c # s) \<noteq> []" by (simp add: dw)
    from split_ws_more [OF this]
    have "split_ws (c # s) = (c # ?tw) # split_ws (dropWhile is_space ?r)" by (simp only: tw dw)
    then have l: "words_of (c # s) = (c # ?tw) # words_of (dropWhile is_space ?r)"
      by (simp add: words_of_def)
    show ?thesis
    proof (cases "is_space (hd s)")
      case True
      with ne have "?tw = []" "?r = s" by (cases s; simp)+
      with l True show ?thesis by (simp add: words_of_dropWhile)
    next
      case h: False
      with ne have t: "?tw \<noteq> []" by (cases s) simp_all
      from split_ws_more [OF False] t
      have "words_of s = ?tw # words_of (dropWhile is_space ?r)"
        by (simp add: words_of_def)
      with l h ne show ?thesis by simp
    qed
  qed
qed

lemma words_of_single: "\<not> is_space c \<Longrightarrow> words_of [c] = [[c]]"
  by (simp add: words_of_Cons_word words_of_Nil)

lemma words_of_not_Nil: "s \<noteq> [] \<Longrightarrow> \<not> is_space (hd s) \<Longrightarrow> words_of s \<noteq> []"
  by (cases s) (simp_all add: words_of_Cons_word push_not_Nil)

lemma words_of_spaces: "\<forall>c\<in>set s. is_space c \<Longrightarrow> words_of s = []"
  by (induction s) (simp_all add: words_of_Nil words_of_Cons_space)

lemma words_of_word: "w \<noteq> [] \<Longrightarrow> \<forall>c\<in>set w. \<not> is_space c \<Longrightarrow> words_of w = [w]"
proof (induction w)
  case Nil
  then show ?case by simp
next
  case (Cons c w)
  show ?case
  proof (cases "w = []")
    case True
    with Cons.prems show ?thesis by (simp add: words_of_single)
  next
    case False
    then have "\<not> is_space (hd w)" using Cons.prems by (cases w) simp_all
    moreover have "words_of w = [w]" using Cons.IH False Cons.prems by simp
    ultimately show ?thesis using Cons.prems False by (simp add: words_of_Cons_word)
  qed
qed

lemma words_of_append_space:
  "v = [] \<or> is_space (hd v) \<Longrightarrow> words_of (u @ v) = words_of u @ words_of v"
proof (induction u)
  case Nil
  show ?case by (simp add: words_of_Nil)
next
  case (Cons c u)
  show ?case
  proof (cases "is_space c")
    case True
    with Cons show ?thesis by (simp add: words_of_Cons_space)
  next
    case c: False
    show ?thesis
    proof (cases u)
      case Nil
      with c Cons.prems show ?thesis
        by (auto simp: words_of_Cons_word words_of_Nil)
    next
      case u: (Cons d u')
      have ih: "words_of (u @ v) = words_of u @ words_of v" by (rule Cons.IH [OF Cons.prems])
      show ?thesis
      proof (cases "is_space d")
        case True
        with c u ih show ?thesis by (simp add: words_of_Cons_word)
      next
        case False
        with u have "words_of u \<noteq> []" by (intro words_of_not_Nil) simp_all
        then have "push c (words_of u @ words_of v) = push c (words_of u) @ words_of v"
          by (rule push_append)
        with c u ih False show ?thesis by (simp add: words_of_Cons_word)
      qed
    qed
  qed
qed

lemma words_packWords:
  "\<forall>w\<in>set ws. \<forall>c\<in>set w. \<not> is_space c \<Longrightarrow>
   concat (map words_of (packWords cur ws)) = words_of cur @ filter (\<lambda>w. w \<noteq> []) ws"
proof (induction cur ws rule: packWords.induct)
  case (1 current)
  show ?case by (simp add: words_of_Nil)
next
  case (2 current word ws)
  show ?case
  proof (cases "word = []")
    case True
    with 2 show ?thesis by simp
  next
    case w: False
    with "2.prems" have ww: "words_of word = [word]" by (intro words_of_word) simp_all
    show ?thesis
    proof (cases "current = []")
      case True
      with w ww 2 show ?thesis by (simp add: words_of_Nil)
    next
      case c: False
      show ?thesis
      proof (cases "length current + length word + 1 \<le> maxLength")
        case True
        have "words_of (current @ [0x20] @ word) = words_of current @ words_of (0x20 # word)"
          using words_of_append_space [of "0x20 # word" current] by (simp add: is_space_0x20)
        also have "\<dots> = words_of current @ [word]"
          by (simp add: words_of_Cons_space is_space_0x20 ww)
        finally have "words_of (current @ [0x20] @ word) = words_of current @ [word]" .
        with w c True "2.IH"(3) [OF w c True] "2.prems" show ?thesis by simp
      next
        case False
        with w c ww "2.IH"(4) [OF w c False] "2.prems" show ?thesis by simp
      qed
    qed
  qed
qed

lemma words_trim: "words_of (trim s) = words_of s"
proof -
  let ?t = "dropWhile is_space s"
  let ?a = "rev (dropWhile is_space (rev ?t))"
  let ?b = "rev (takeWhile is_space (rev ?t))"
  have "rev ?t = takeWhile is_space (rev ?t) @ dropWhile is_space (rev ?t)" by simp
  then have "rev (rev ?t) = rev (takeWhile is_space (rev ?t) @ dropWhile is_space (rev ?t))"
    by (rule arg_cong)
  then have t: "?t = ?a @ ?b" by (simp only: rev_rev_ident rev_append)
  have sp: "\<forall>c\<in>set ?b. is_space c" by (auto dest: set_takeWhileD)
  then have "?b = [] \<or> is_space (hd ?b)" by (cases ?b) auto
  then have "words_of (?a @ ?b) = words_of ?a @ words_of ?b" by (rule words_of_append_space)
  also have "\<dots> = words_of ?a" using words_of_spaces [OF sp] by simp
  finally have "words_of ?t = words_of ?a" using t by simp
  then show ?thesis by (simp add: trim_def words_of_dropWhile)
qed

lemma words_splitPart: "concat (map words_of (splitPart p)) = words_of p"
proof -
  have "\<forall>w\<in>set (split_ws (trim p)). \<forall>c\<in>set w. \<not> is_space c"
    using split_ws_no_space by blast
  from words_packWords [OF this, of "[]"]
  have "concat (map words_of (packWords [] (split_ws (trim p))))
          = filter (\<lambda>w. w \<noteq> []) (split_ws (trim p))"
    by (simp add: words_of_Nil)
  then have "concat (map words_of (packWords [] (split_ws (trim p)))) = words_of (trim p)"
    by (simp only: words_of_def)
  moreover have "trim p = [] \<Longrightarrow> words_of (trim p) = []" by (simp add: words_of_Nil)
  ultimately have "concat (map words_of (splitPart p)) = words_of (trim p)"
    by (simp add: splitPart_def Let_def)
  then show ?thesis by (simp only: words_trim)
qed

lemma words_splitParts: "concat (map words_of (concat (map splitPart ps))) = concat (map words_of ps)"
  by (induction ps) (simp_all add: words_splitPart)

lemma words_splitText: "concat (map words_of (splitText s)) = concat (map words_of (parts s))"
  by (simp add: splitText_def words_splitParts)


lemma word_pieces_not_Nil: "s \<noteq> [] \<Longrightarrow> \<not> is_space (hd s) \<Longrightarrow> word_pieces s \<noteq> []"
  by (cases s) (simp_all add: push_not_Nil)

lemma word_pieces_spaces: "\<forall>c\<in>set s. is_space c \<Longrightarrow> word_pieces s = []"
  by (induction s) simp_all

lemma word_pieces_append:
  "u = [] \<or> v = [] \<or> is_space (last u) \<or> is_space (hd v) \<or> (is_term (last u) \<and> \<not> is_term (hd v))
   \<Longrightarrow> word_pieces (u @ v) = word_pieces u @ word_pieces v"
proof (induction u)
  case Nil
  show ?case by simp
next
  case (Cons c u)
  show ?case
  proof (cases "v = []")
    case True
    then show ?thesis by simp
  next
    case v: False
    show ?thesis
    proof (cases "u = []")
      case True
      with v Cons.prems show ?thesis by auto
    next
      case u: False
      with Cons.prems have "u = [] \<or> v = [] \<or> is_space (last u) \<or> is_space (hd v) \<or> (is_term (last u) \<and> \<not> is_term (hd v))"
        by simp
      then have ih: "word_pieces (u @ v) = word_pieces u @ word_pieces v" by (rule Cons.IH)
      from u have h: "hd (u @ v) = hd u" by simp
      have l: "word_pieces ((c # u) @ v) =
                 (if is_space c then word_pieces u @ word_pieces v
                  else if is_space (hd u) \<or> (is_term c \<and> \<not> is_term (hd u))
                    then [c] # word_pieces u @ word_pieces v
                  else push c (word_pieces u @ word_pieces v))"
        using u by (simp only: append_Cons word_pieces.simps ih h) simp
      have r: "word_pieces (c # u) =
                 (if is_space c then word_pieces u
                  else if is_space (hd u) \<or> (is_term c \<and> \<not> is_term (hd u))
                    then [c] # word_pieces u
                  else push c (word_pieces u))"
        using u by simp
      show ?thesis
      proof (cases "is_space (hd u)")
        case True
        then show ?thesis by (simp only: l r) simp
      next
        case False
        with u have "word_pieces u \<noteq> []" by (intro word_pieces_not_Nil)
        then have "push c (word_pieces u @ word_pieces v) = push c (word_pieces u) @ word_pieces v"
          by (rule push_append)
        then show ?thesis by (simp only: l r) simp
      qed
    qed
  qed
qed

lemma word_pieces_terms: "\<forall>c\<in>set r. is_term c \<Longrightarrow> word_pieces r = words_of r"
proof (induction r)
  case Nil
  show ?case by (simp add: words_of_Nil)
next
  case (Cons c r)
  then have ih: "word_pieces r = words_of r" by simp
  from Cons.prems have "r \<noteq> [] \<Longrightarrow> is_term (hd r)" by (cases r) simp_all
  with ih show ?case
    by (cases "is_space c") (auto simp: words_of_Cons_space words_of_Cons_word)
qed

lemma word_pieces_sentence:
  "\<forall>c\<in>set b. \<not> is_term c \<Longrightarrow> \<forall>c\<in>set r. is_term c \<Longrightarrow> word_pieces (b @ r) = words_of (b @ r)"
proof (induction b)
  case Nil
  then show ?case by (simp add: word_pieces_terms)
next
  case (Cons c b)
  then have ih: "word_pieces (b @ r) = words_of (b @ r)" by simp
  from Cons.prems have "\<not> is_term c" by simp
  with ih show ?case
    by (cases "is_space c") (simp_all add: words_of_Cons_space words_of_Cons_word)
qed

lemma sentence_cut:
  assumes "dropWhile is_term (dropWhile (\<lambda>x. \<not> is_term x) t) \<noteq> []"
  shows "is_term (last (takeWhile (\<lambda>x. \<not> is_term x) t @ takeWhile is_term (dropWhile (\<lambda>x. \<not> is_term x) t)))
       \<and> \<not> is_term (hd (dropWhile is_term (dropWhile (\<lambda>x. \<not> is_term x) t)))"
proof -
  define body where "body = takeWhile (\<lambda>x. \<not> is_term x) t"
  define rest where "rest = dropWhile (\<lambda>x. \<not> is_term x) t"
  define run where "run = takeWhile is_term rest"
  from assms have ne: "dropWhile is_term rest \<noteq> []" by (simp only: rest_def simp_thms)
  then have h: "\<not> is_term (hd (dropWhile is_term rest))" by (rule hd_dropWhile)
  from ne have rne: "rest \<noteq> []" by auto
  then have "\<not> \<not> is_term (hd rest)" unfolding rest_def by (rule hd_dropWhile)
  with rne obtain x xs where "rest = x # xs" "is_term x" by (cases rest) auto
  then have "run \<noteq> []" by (simp add: run_def)
  then have "last run \<in> set run" by (rule last_in_set)
  then have "is_term (last run)" unfolding run_def by (rule set_takeWhileD [THEN conjunct2])
  moreover from \<open>run \<noteq> []\<close> have "last (body @ run) = last run" by simp
  ultimately have "is_term (last (body @ run))" by simp
  with h show ?thesis by (simp only: body_def rest_def run_def simp_thms)
qed

lemma words_matchAll: "concat (map words_of (matchAll t)) = word_pieces (dropWhile is_term t)"
proof (induction t rule: matchAll.induct)
  case 1
  show ?case by simp
next
  case (2 c cs)
  show ?case
  proof (cases "is_term c")
    case False
    let ?body = "takeWhile (\<lambda>x. \<not> is_term x) (c # cs)"
    let ?rest = "dropWhile (\<lambda>x. \<not> is_term x) (c # cs)"
    let ?run = "takeWhile is_term ?rest"
    let ?rest' = "dropWhile is_term ?rest"
    have m: "matchAll (c # cs) = (?body @ ?run) # matchAll ?rest'"
      using False by (simp add: Let_def)
    have b: "\<forall>x\<in>set ?body. \<not> is_term x" by (auto dest: set_takeWhileD)
    have r: "\<forall>x\<in>set ?run. is_term x" by (auto dest: set_takeWhileD)
    have s: "word_pieces (?body @ ?run) = words_of (?body @ ?run)"
      by (rule word_pieces_sentence [OF b r])
    have cut: "?body @ ?run = [] \<or> ?rest' = [] \<or> is_space (last (?body @ ?run)) \<or> is_space (hd ?rest')
         \<or> (is_term (last (?body @ ?run)) \<and> \<not> is_term (hd ?rest'))"
      using sentence_cut [of "c # cs"] by blast
    have "c # cs = (?body @ ?run) @ ?rest'"
      by (simp only: append_assoc takeWhile_dropWhile_id)
    then have "word_pieces (c # cs) = word_pieces ((?body @ ?run) @ ?rest')"
      by (rule arg_cong)
    also have "\<dots> = word_pieces (?body @ ?run) @ word_pieces ?rest'"
      by (rule word_pieces_append [OF cut])
    finally have w: "word_pieces (c # cs) = words_of (?body @ ?run) @ word_pieces ?rest'"
      by (simp only: s)
    have "concat (map words_of (matchAll (c # cs)))
            = words_of (?body @ ?run) @ concat (map words_of (matchAll ?rest'))"
      by (simp only: m list.map concat.simps)
    also have "concat (map words_of (matchAll ?rest')) = word_pieces (dropWhile is_term ?rest')"
      using "2.IH"(1) [OF False refl refl] .
    also have "dropWhile is_term ?rest' = ?rest'"
      by (rule dropWhile_term_idem)
    finally show ?thesis using False w by simp
  next
    case True
    show ?thesis
    proof (cases "is_newline c")
      case nl: True
      have m: "matchAll (c # cs) = takeWhile is_newline (c # cs) # matchAll (dropWhile is_newline (c # cs))"
        using True nl by simp
      have "\<forall>x\<in>set (takeWhile is_newline (c # cs)). is_space x"
        by (auto dest!: set_takeWhileD simp: newline_is_space)
      then have e: "words_of (takeWhile is_newline (c # cs)) = []"
        by (rule words_of_spaces)
      have d: "dropWhile is_term (dropWhile is_newline (c # cs)) = dropWhile is_term (c # cs)"
        by (rule dropWhile_term_newline)
      have "concat (map words_of (matchAll (c # cs)))
              = concat (map words_of (matchAll (dropWhile is_newline (c # cs))))"
        by (simp only: m list.map concat.simps e append_Nil)
      also have "\<dots> = word_pieces (dropWhile is_term (dropWhile is_newline (c # cs)))"
        using "2.IH"(2) True nl by simp
      finally show ?thesis by (simp only: d)
    next
      case False
      with True "2.IH"(3) show ?thesis by simp
    qed
  qed
qed

lemma matchAll_Nil: "matchAll t = [] \<Longrightarrow> \<forall>c\<in>set t. is_term c"
proof (induction t rule: matchAll.induct)
  case 1
  show ?case by simp
next
  case (2 c cs)
  from "2.prems" have t: "is_term c" and n: "\<not> is_newline c"
    by (auto simp: Let_def split: if_splits)
  with "2.prems" have "matchAll cs = []" by simp
  with "2.IH"(3) t n have "\<forall>c\<in>set cs. is_term c" by simp
  with t show ?case by simp
qed

lemma words_parts:
  "concat (map words_of (parts s))
     = (if matchAll s = [] then word_pieces s else word_pieces (dropWhile is_term s))"
proof (cases "matchAll s = []")
  case True
  then have "word_pieces s = words_of s"
    by (intro word_pieces_terms matchAll_Nil)
  with True show ?thesis by (simp add: parts_def)
next
  case False
  then show ?thesis by (simp add: parts_def words_matchAll)
qed

lemma word_pieces_leading:
  "word_pieces s = word_pieces (takeWhile is_term s) @ word_pieces (dropWhile is_term s)"
proof -
  let ?u = "takeWhile is_term s" and ?v = "dropWhile is_term s"
  have "?u = [] \<or> ?v = [] \<or> is_space (last ?u) \<or> is_space (hd ?v) \<or> (is_term (last ?u) \<and> \<not> is_term (hd ?v))"
  proof (cases "?u = [] \<or> ?v = []")
    case True
    then show ?thesis by blast
  next
    case False
    then have "last ?u \<in> set ?u" by simp
    then have "is_term (last ?u)" by (auto dest: set_takeWhileD)
    moreover from False have "\<not> is_term (hd ?v)" using hd_dropWhile [of is_term s] by simp
    ultimately show ?thesis by simp
  qed
  from word_pieces_append [OF this] show ?thesis by simp
qed

lemma words_parts_subset: "set (concat (map words_of (parts s))) \<subseteq> set (word_pieces s)"
  using word_pieces_leading [of s] by (simp add: words_parts)

lemma words_parts_newlines:
  assumes "list_all is_newline (takeWhile is_term s)"
  shows "concat (map words_of (parts s)) = word_pieces s"
proof -
  from assms have "\<forall>c\<in>set (takeWhile is_term s). is_space c"
    by (auto simp: list_all_iff newline_is_space)
  then have "word_pieces (takeWhile is_term s) = []" by (rule word_pieces_spaces)
  with word_pieces_leading [of s] have "word_pieces (dropWhile is_term s) = word_pieces s" by simp
  then show ?thesis by (simp add: words_parts)
qed

lemma words_of_hd:
  assumes "s \<noteq> []" "\<not> is_space (hd s)"
  shows "\<exists>w ws. words_of s = w # ws \<and> w \<noteq> [] \<and> hd w = hd s"
proof -
  from assms obtain c cs where s: "s = c # cs" and c: "\<not> is_space c" by (cases s) auto
  show ?thesis
  proof (cases "cs = [] \<or> is_space (hd cs)")
    case True
    with c s show ?thesis by (simp add: words_of_Cons_word)
  next
    case False
    then have "words_of cs \<noteq> []" by (intro words_of_not_Nil) simp_all
    then obtain w ws where "words_of cs = w # ws" by (cases "words_of cs") auto
    with False c s show ?thesis by (simp add: words_of_Cons_word)
  qed
qed

lemma pieces_not_Nil: "w \<noteq> [] \<Longrightarrow> pieces w \<noteq> []"
  by (cases w) (simp_all add: push_not_Nil)

lemma pieces_words: "concat (map pieces (words_of s)) = word_pieces s"
proof (induction s)
  case Nil
  show ?case by (simp add: words_of_Nil)
next
  case (Cons c s)
  show ?case
  proof (cases "is_space c")
    case True
    with Cons show ?thesis by (simp add: words_of_Cons_space)
  next
    case c: False
    show ?thesis
    proof (cases "s = [] \<or> is_space (hd s)")
      case True
      with c Cons show ?thesis by (auto simp: words_of_Cons_word)
    next
      case False
      then have "s \<noteq> []" "\<not> is_space (hd s)" by simp_all
      from words_of_hd [OF this] obtain w ws
        where w: "words_of s = w # ws" "w \<noteq> []" "hd w = hd s" by blast
      from Cons w(1) have ih: "word_pieces s = pieces w @ concat (map pieces ws)" by simp
      have l: "concat (map pieces (words_of (c # s))) = pieces (c # w) @ concat (map pieces ws)"
        using c False w(1) by (simp add: words_of_Cons_word)
      show ?thesis
      proof (cases "is_term c \<and> \<not> is_term (hd s)")
        case True
        with l w(2,3) ih c show ?thesis by simp
      next
        case nc: False
        from w(2) have "pieces w \<noteq> []" by (rule pieces_not_Nil)
        then have "push c (pieces w @ concat (map pieces ws)) = push c (pieces w) @ concat (map pieces ws)"
          by (rule push_append)
        with l w(2,3) ih c nc False show ?thesis by auto
      qed
    qed
  qed
qed

lemma chunk_is_word_piece:
  assumes "x \<in> set (splitText s)" and "\<not> length x \<le> maxLength"
  shows "x \<in> set (concat (map pieces (words_of s)))"
proof -
  from splitText_chunks assms have "x \<noteq> []" "\<forall>c\<in>set x. \<not> is_space c" by blast+
  then have "words_of x = [x]" by (rule words_of_word)
  with assms(1) have "x \<in> set (concat (map words_of (splitText s)))"
    by (auto intro!: bexI [of _ x])
  then have "x \<in> set (concat (map words_of (parts s)))" by (simp only: words_splitText)
  with words_parts_subset have "x \<in> set (word_pieces s)" by blast
  then show ?thesis by (simp only: pieces_words)
qed


lemma matchAll_two:
  assumes "u \<noteq> []" "\<forall>c\<in>set u. \<not> is_term c" "is_term d" "v \<noteq> []" "\<forall>c\<in>set v. \<not> is_term c"
  shows "matchAll (u @ d # v) = [u @ [d], v]"
proof -
  from assms(1) obtain c cs where u: "u = c # cs" by (cases u) auto
  from assms(4,5) have hv: "\<not> is_term (hd v)" by (cases v) simp_all
  have tw: "takeWhile (\<lambda>x. \<not> is_term x) (u @ d # v) = u"
    using assms(2,3) by (simp add: takeWhile_append2)
  have dw: "dropWhile (\<lambda>x. \<not> is_term x) (u @ d # v) = d # v"
    using assms(2,3) by (simp add: dropWhile_append2)
  have t2: "takeWhile is_term (d # v) = [d]"
    using assms(3,4) hv by (cases v) simp_all
  have d2: "dropWhile is_term (d # v) = v"
    using assms(3,4) hv by (cases v) simp_all
  have "dropWhile (\<lambda>x. \<not> is_term x) v = []" using assms(5) by simp
  then have "dropWhile is_term (dropWhile (\<lambda>x. \<not> is_term x) v) = []"
    by (simp only: dropWhile.simps)
  with assms(4) hv have mv: "matchAll v = [v]" by (rule matchAll_single)
  have "\<not> is_term c" using assms(2) u by simp
  then have "matchAll (c # (cs @ d # v)) =
      (takeWhile (\<lambda>x. \<not> is_term x) (c # (cs @ d # v))
        @ takeWhile is_term (dropWhile (\<lambda>x. \<not> is_term x) (c # (cs @ d # v))))
      # matchAll (dropWhile is_term (dropWhile (\<lambda>x. \<not> is_term x) (c # (cs @ d # v))))"
    by (simp add: Let_def)
  moreover have "c # (cs @ d # v) = u @ d # v" by (simp add: u)
  ultimately have "matchAll (u @ d # v) =
      (takeWhile (\<lambda>x. \<not> is_term x) (u @ d # v)
        @ takeWhile is_term (dropWhile (\<lambda>x. \<not> is_term x) (u @ d # v)))
      # matchAll (dropWhile is_term (dropWhile (\<lambda>x. \<not> is_term x) (u @ d # v)))"
    by (simp only:)
  then show ?thesis by (simp only: tw dw t2 d2 mv)
qed

lemma splitPart_word:
  assumes "w \<noteq> []" and "\<forall>c\<in>set w. \<not> is_space c"
  shows "splitPart w = [w]"
proof -
  have t: "trim w = w" by (rule trim_no_space [OF assms(2)])
  have d: "dropWhile (\<lambda>c. \<not> is_space c) w = []" using assms(2) by simp
  have "takeWhile (\<lambda>c. \<not> is_space c) w = w" using assms(2) by (simp add: takeWhile_eq_all_conv)
  with split_ws_last [OF d] have "split_ws w = [w]" by simp
  with assms(1) have "packWords [] (split_ws w) = [w]" by simp
  with t assms(1) show ?thesis by (simp add: splitPart_def Let_def)
qed

lemma splitText_long_word:
  assumes "u \<noteq> []" "\<forall>c\<in>set u. \<not> is_term c \<and> \<not> is_space c" "is_term d" "\<not> is_space d"
    "v \<noteq> []" "\<forall>c\<in>set v. \<not> is_term c \<and> \<not> is_space c"
  shows "splitText (u @ d # v) = [u @ [d], v]"
    and "words_of (u @ d # v) = [u @ d # v]"
proof -
  have "matchAll (u @ d # v) = [u @ [d], v]"
    using assms by (intro matchAll_two) simp_all
  then have "parts (u @ d # v) = [u @ [d], v]" by (simp add: parts_def)
  moreover have "splitPart (u @ [d]) = [u @ [d]]"
    using assms by (intro splitPart_word) auto
  moreover have "splitPart v = [v]"
    using assms by (intro splitPart_word) auto
  ultimately show "splitText (u @ d # v) = [u @ [d], v]" by (simp add: splitText_def)
  show "words_of (u @ d # v) = [u @ d # v]"
    using assms by (intro words_of_word) auto
qed

section \<open>Claims about the splitter\<close>

text \<open>
  C5, as stated, fails: a chunk over the limit need not be a word of the text, emitted
  unsplit. Before it looks at lengths, \<open>splitText\<close> cuts the text after every run of
  sentence punctuation, also inside a word. The text of 241 letters \<open>a\<close>, a dot and 241
  letters \<open>b\<close> is one word; it comes back as two chunks, of 242 and of 241 characters. The
  first one is over the limit and is not a word of the text.
\<close>

theorem splitText_cuts_long_word:
  "splitText (replicate 241 0x61 @ 0x2E # replicate 241 0x62)
     = [replicate 241 0x61 @ [0x2E], replicate 241 0x62]
   \<and> maxLength < length (replicate 241 (0x61 :: code_unit) @ [0x2E])
   \<and> words_of (replicate 241 0x61 @ 0x2E # replicate 241 0x62)
       = [replicate 241 0x61 @ 0x2E # replicate 241 0x62]
   \<and> replicate 241 0x61 @ [0x2E] \<notin> set (words_of (replicate 241 0x61 @ 0x2E # replicate 241 0x62))
   \<and> replicate 241 0x61 @ 0x2E # replicate 241 0x62
       \<notin> set (splitText (replicate 241 0x61 @ 0x2E # replicate 241 0x62))"
proof -
  have a: "replicate 241 (0x61 :: code_unit) \<noteq> []" "replicate 241 (0x62 :: code_unit) \<noteq> []"
    by simp_all
  have b: "\<forall>c\<in>set (replicate 241 (0x61 :: code_unit)). \<not> is_term c \<and> \<not> is_space c"
    "\<forall>c\<in>set (replicate 241 (0x62 :: code_unit)). \<not> is_term c \<and> \<not> is_space c"
    by (simp_all add: is_term_def is_space_def)
  have d: "is_term 0x2E" "\<not> is_space 0x2E"
    by (simp_all add: is_term_def is_space_def)
  note s = splitText_long_word [OF a(1) b(1) d a(2) b(2)]
  have l: "maxLength < length (replicate 241 (0x61 :: code_unit) @ [0x2E])"
    by (simp add: maxLength_def)
  have "length (replicate 241 (0x61 :: code_unit) @ [0x2E])
          \<noteq> length (replicate 241 (0x61 :: code_unit) @ 0x2E # replicate 241 0x62)"
    by simp
  then have n: "replicate 241 (0x61 :: code_unit) @ [0x2E] \<noteq> replicate 241 0x61 @ 0x2E # replicate 241 0x62"
    by (rule contrapos_nn) (erule arg_cong)
  have "length (replicate 241 (0x62 :: code_unit))
          \<noteq> length (replicate 241 (0x61 :: code_unit) @ 0x2E # replicate 241 0x62)"
    by simp
  then have n': "replicate 241 (0x62 :: code_unit) \<noteq> replicate 241 0x61 @ 0x2E # replicate 241 0x62"
    by (rule contrapos_nn) (erule arg_cong)
  from n have n2: "replicate 241 (0x61 :: code_unit) @ 0x2E # replicate 241 0x62 \<noteq> replicate 241 0x61 @ [0x2E]"
    by (rule not_sym)
  from n' have n3: "replicate 241 (0x61 :: code_unit) @ 0x2E # replicate 241 0x62 \<noteq> replicate 241 0x62"
    by (rule not_sym)
  from s l n n2 n3 show ?thesis by (simp only: set_simps) simp
qed

text \<open>
  C5, amended. Every chunk returned by \<open>splitText\<close> is a non-empty string. Every chunk has
  at most \<open>maxLength\<close> = 240 code units, except a chunk that is a single piece of a word:
  it holds no whitespace, it is, unchanged, one of the words of the trimmed part it came
  from, and it is one of the pieces into which the words of the text fall when each word is
  cut after every run of \<open>.\<close>, \<open>!\<close>, \<open>?\<close> inside it.
\<close>

theorem splitText_chunks_bounded:
  "\<forall>x\<in>set (splitText input). x \<noteq> [] \<and> (length x \<le> maxLength
      \<or> ((\<forall>c\<in>set x. \<not> is_space c) \<and> (\<exists>p\<in>set (parts input). x \<in> set (split_ws (trim p)))
          \<and> x \<in> set (concat (map pieces (words_of input)))))"
  using splitText_chunks [of input] chunk_is_word_piece [of _ input] by blast

text \<open>
  The one-word text above: its first chunk is over the limit, and it is the first piece of
  the word.
\<close>

theorem splitText_chunks_bounded_witness:
  "replicate 241 0x61 @ [0x2E] \<in> set (splitText (replicate 241 0x61 @ 0x2E # replicate 241 0x62))
   \<and> replicate 241 (0x61 :: code_unit) @ [0x2E] \<noteq> []
   \<and> maxLength < length (replicate 241 (0x61 :: code_unit) @ [0x2E])
   \<and> list_all (\<lambda>c. \<not> is_space c) (replicate 241 0x61 @ [0x2E])
   \<and> replicate 241 0x61 @ [0x2E]
       \<in> set (concat (map pieces (words_of (replicate 241 0x61 @ 0x2E # replicate 241 0x62))))"
proof -
  have a: "replicate 241 (0x61 :: code_unit) \<noteq> []" "replicate 241 (0x62 :: code_unit) \<noteq> []"
    by simp_all
  have b: "\<forall>c\<in>set (replicate 241 (0x61 :: code_unit)). \<not> is_term c \<and> \<not> is_space c"
    "\<forall>c\<in>set (replicate 241 (0x62 :: code_unit)). \<not> is_term c \<and> \<not> is_space c"
    by (simp_all add: is_term_def is_space_def)
  have d: "is_term 0x2E" "\<not> is_space 0x2E"
    by (simp_all add: is_term_def is_space_def)
  have m: "replicate 241 0x61 @ [0x2E] \<in> set (splitText (replicate 241 0x61 @ 0x2E # replicate 241 0x62))"
    by (simp only: splitText_long_word(1) [OF a(1) b(1) d a(2) b(2)]) simp
  have l: "maxLength < length (replicate 241 (0x61 :: code_unit) @ [0x2E])"
    by (simp add: maxLength_def)
  from bspec [OF splitText_chunks_bounded m] l m show ?thesis
    by (auto simp: list_all_iff)
qed

text \<open>
  C6, as stated, fails: the regular expression matches nothing at a leading \<open>.\<close>, \<open>!\<close>
  or \<open>?\<close>, so the text \<open>.NET is great\<close> loses its first character. Neither its word
  sequence nor its sequence of non-whitespace characters is that of the chunks. Besides, a
  chunk ends right after sentence punctuation even inside a word: \<open>v1.5 is out\<close> keeps
  every character, but its word \<open>v1.5\<close> is divided between two chunks.
\<close>

theorem splitText_drops_leading_punctuation:
  "splitText (js ''.NET is great'') = [js ''NET is great'']
   \<and> concat (map words_of (splitText (js ''.NET is great''))) \<noteq> words_of (js ''.NET is great'')
   \<and> strip (concat (splitText (js ''.NET is great''))) \<noteq> strip (js ''.NET is great'')
   \<and> splitText (js ''v1.5 is out'') = [js ''v1.'', js ''5 is out'']
   \<and> concat (map words_of (splitText (js ''v1.5 is out''))) \<noteq> words_of (js ''v1.5 is out'')"
  by code_simp

text \<open>
  C6, amended. For every input text that does not begin with \<open>.\<close>, \<open>!\<close> or \<open>?\<close>,
  leading newlines aside, the words of the chunks, in order, are the words of the text,
  except that a word with \<open>.\<close>, \<open>!\<close> or \<open>?\<close> inside is divided after each run of them:
  no word and no piece of a word is dropped, duplicated, joined to its neighbour or cut
  elsewhere. In particular the chunks hold exactly the non-whitespace characters of the
  text, in order.
\<close>

theorem splitText_keeps_words:
  assumes "list_all is_newline (takeWhile is_term input)"
  shows "concat (map words_of (splitText input)) = concat (map pieces (words_of input))
       \<and> strip (concat (splitText input)) = strip input"
proof -
  have "strip input = strip (takeWhile is_term input @ dropWhile is_term input)"
    by simp
  also have "\<dots> = strip (dropWhile is_term input)"
    by (simp only: strip_append strip_all_newlines [OF assms] append_Nil)
  finally have "strip (dropWhile is_term input) = strip input" by simp
  then have "strip (concat (splitText input)) = strip input" by (simp add: strip_splitText)
  moreover have "concat (map words_of (splitText input)) = concat (map pieces (words_of input))"
    by (simp only: words_splitText words_parts_newlines [OF assms] pieces_words)
  ultimately show ?thesis by simp
qed

text \<open>
  A text with a word that has a dot inside: \<open>v1.5\<close> is divided into \<open>v1.\<close> and \<open>5\<close>,
  every other word is kept whole.
\<close>

theorem splitText_keeps_words_witness:
  "list_all is_newline (takeWhile is_term (js ''Is v1.5 out? Yes.''))
   \<and> splitText (js ''Is v1.5 out? Yes.'') = [js ''Is v1.'', js ''5 out?'', js ''Yes.'']
   \<and> words_of (js ''Is v1.5 out? Yes.'') = [js ''Is'', js ''v1.5'', js ''out?'', js ''Yes.'']
   \<and> concat (map words_of (splitText (js ''Is v1.5 out? Yes.'')))
       = [js ''Is'', js ''v1.'', js ''5'', js ''out?'', js ''Yes.'']
   \<and> strip (concat (splitText (js ''Is v1.5 out? Yes.''))) = js ''Isv1.5out?Yes.''"
proof -
  have h: "list_all is_newline (takeWhile is_term (js ''Is v1.5 out? Yes.''))"
    by (simp add: js_def is_term_def)
  have c: "splitText (js ''Is v1.5 out? Yes.'') = [js ''Is v1.'', js ''5 out?'', js ''Yes.'']"
    by code_simp
  have w: "words_of (js ''Is v1.5 out? Yes.'') = [js ''Is'', js ''v1.5'', js ''out?'', js ''Yes.'']"
    by code_simp
  have p: "concat (map pieces [js ''Is'', js ''v1.5'', js ''out?'', js ''Yes.''])
       = [js ''Is'', js ''v1.'', js ''5'', js ''out?'', js ''Yes.'']"
    by code_simp
  have s: "strip (js ''Is v1.5 out? Yes.'') = js ''Isv1.5out?Yes.''"
    by code_simp
  from splitText_keeps_words [OF h] h c w p s show ?thesis
    by (simp only: simp_thms)
qed

text \<open>
  C7, as stated, fails: a text under the limit with two sentences gives two chunks. A
  text that begins with \<open>.\<close> gives one chunk that is not the trimmed text, and a blank
  text gives no chunk.
\<close>

theorem splitText_two_sentences:
  "length (js ''Hello. World!'') < maxLength
   \<and> splitText (js ''Hello. World!'') = [js ''Hello.'', js ''World!'']
   \<and> splitText (js ''Hello. World!'') \<noteq> [trim (js ''Hello. World!'')]
   \<and> splitText (js ''.NET'') = [js ''NET''] \<and> trim (js ''.NET'') = js ''.NET''
   \<and> splitText (js ''  '') = [] \<and> trim (js ''  '') = []"
  by code_simp

text \<open>
  C7, amended. For every input text shorter than the limit that is not blank, begins with
  a character other than \<open>.\<close>, \<open>!\<close>, \<open>?\<close> and newline, and has such characters only
  in one run at its end (a single sentence), \<open>splitText\<close> returns exactly one chunk, the
  trimmed input.
\<close>

theorem splitText_single_chunk:
  assumes "length input < maxLength"
    and "trim input \<noteq> []"
    and "\<not> is_term (hd input)"
    and "list_all is_term (dropWhile (\<lambda>x. \<not> is_term x) input)"
  shows "splitText input = [trim input]"
proof -
  from assms(2) have a: "input \<noteq> []"
    by (cases input) (simp_all add: trim_def)
  from assms(4) have "\<forall>x\<in>set (dropWhile (\<lambda>x. \<not> is_term x) input). is_term x"
    by (simp only: list_all_iff)
  then have b: "dropWhile is_term (dropWhile (\<lambda>x. \<not> is_term x) input) = []"
    by (rule iffD2 [OF dropWhile_eq_Nil_conv])
  have c: "length (trim input) \<le> maxLength"
    using length_trim_le [of input] assms(1) by simp
  show ?thesis
    by (rule splitText_single [OF a assms(3) b assms(2) c])
qed

theorem splitText_single_chunk_witness:
  "length (js ''  Hello world!'') < maxLength
   \<and> trim (js ''  Hello world!'') \<noteq> []
   \<and> \<not> is_term (hd (js ''  Hello world!''))
   \<and> list_all is_term (dropWhile (\<lambda>x. \<not> is_term x) (js ''  Hello world!''))
   \<and> splitText (js ''  Hello world!'') = [js ''Hello world!'']"
proof -
  have a: "length (js ''  Hello world!'') < maxLength"
    by (simp add: js_def maxLength_def)
  have b: "trim (js ''  Hello world!'') = js ''Hello world!''"
    by (simp add: js_def trim_def is_space_def)
  have c: "\<not> is_term (hd (js ''  Hello world!''))"
    by (simp add: js_def is_term_def)
  have d: "list_all is_term (dropWhile (\<lambda>x. \<not> is_term x) (js ''  Hello world!''))"
    by (simp add: js_def is_term_def)
  have e: "trim (js ''  Hello world!'') \<noteq> []"
    by (simp add: b) (simp add: js_def)
  from splitText_single_chunk [OF a e c d] a b c d e show ?thesis
    by simp
qed

section \<open>Claims about temp-file cleanup\<close>

lemma unlink_each_results:
  "fst (unlink_each dn fs d) = map (\<lambda>f. Inr ()) fs"
proof (induction fs arbitrary: d)
  case Nil
  show ?case by simp
next
  case (Cons f fs)
  show ?case
    using Cons.IH [of "snd (unlink dn f d)"]
    by (simp add: Let_def split_beta catch_ignore_def split: sum.splits)
qed

lemma unlink_each_disk:
  "snd (unlink_each dn fs d) = d - set (filter (\<lambda>f. \<not> dn f) fs)"
proof (induction fs arbitrary: d)
  case Nil
  show ?case by simp
next
  case (Cons f fs)
  have "snd (unlink_each dn (f # fs) d) = snd (unlink_each dn fs (snd (unlink dn f d)))"
    by (simp add: Let_def split_beta)
  also have "\<dots> = snd (unlink dn f d) - set (filter (\<lambda>f. \<not> dn f) fs)"
    by (rule Cons.IH)
  also have "\<dots> = d - set (filter (\<lambda>f. \<not> dn f) (f # fs))"
    by (auto simp: unlink_def)
  finally show ?case .
qed

lemma promise_all_fulfilled: "promise_all (map (\<lambda>f. Inr ()) fs) = Inr ()"
  by (induction fs) simp_all

lemma cleanupFiles_result: "fst (cleanupFiles dn fs d) = Inr ()"
  using unlink_each_results [of dn fs d]
  by (simp add: cleanupFiles_def split_beta promise_all_fulfilled)

lemma cleanupFiles_disk: "snd (cleanupFiles dn fs d) = d - set (filter (\<lambda>f. \<not> dn f) fs)"
  using unlink_each_disk [of dn fs d]
  by (cases fs) (simp_all add: cleanupFiles_def split_beta)

text \<open>
  C9. \<open>cleanupFiles\<close> never rejects, whatever the paths, the files on disk and the paths
  the operating system refuses to delete. Every listed path that exists and is not refused
  is gone afterwards, so a deletion that fails does not keep the others from being
  deleted. A second call on the same list, which finds the files already deleted, does not
  reject either and changes nothing.
\<close>

theorem cleanupFiles_never_raises:
  "fst (cleanupFiles dn fs d) = Inr ()
   \<and> snd (cleanupFiles dn fs d) = d - set (filter (\<lambda>f. \<not> dn f) fs)
   \<and> cleanupFiles dn fs (snd (cleanupFiles dn fs d)) = (Inr (), snd (cleanupFiles dn fs d))"
proof -
  let ?d1 = "snd (cleanupFiles dn fs d)"
  have "snd (cleanupFiles dn fs ?d1) = ?d1"
    by (simp only: cleanupFiles_disk) auto
  then have "cleanupFiles dn fs ?d1 = (Inr (), ?d1)"
    using cleanupFiles_result [of dn fs ?d1] by (simp add: prod_eq_iff)
  then show ?thesis
    by (simp add: cleanupFiles_result cleanupFiles_disk)
qed

text \<open>
  Four paths of which one is refused and one does not exist: the other two are deleted,
  and a second call leaves the disk as it is.
\<close>

theorem cleanupFiles_never_raises_witness:
  "cleanupFiles (\<lambda>f. f = ''b.wav'') [''a.wav'', ''b.wav'', ''c.wav'', ''d.wav''] {''a.wav'', ''b.wav'', ''d.wav'', ''keep.txt''}
     = (Inr (), {''b.wav'', ''keep.txt''})
   \<and> cleanupFiles (\<lambda>f. f = ''b.wav'') [''a.wav'', ''b.wav'', ''c.wav'', ''d.wav''] {''b.wav'', ''keep.txt''}
     = (Inr (), {''b.wav'', ''keep.txt''})"
proof -
  let ?dn = "\<lambda>f. f = ''b.wav''"
  let ?fs = "[''a.wav'', ''b.wav'', ''c.wav'', ''d.wav'']"
  let ?d = "{''a.wav'', ''b.wav'', ''d.wav'', ''keep.txt''}"
  have s: "snd (cleanupFiles ?dn ?fs ?d) = {''b.wav'', ''keep.txt''}"
    by (simp add: cleanupFiles_def unlink_def Let_def) auto
  note t = cleanupFiles_never_raises [of ?dn ?fs ?d]
  from t have "fst (cleanupFiles ?dn ?fs ?d) = Inr ()"
    by (rule conjunct1)
  with s have first: "cleanupFiles ?dn ?fs ?d = (Inr (), {''b.wav'', ''keep.txt''})"
    by (simp add: prod_eq_iff)
  from t have "cleanupFiles ?dn ?fs (snd (cleanupFiles ?dn ?fs ?d)) = (Inr (), snd (cleanupFiles ?dn ?fs ?d))"
    by (rule conjunct2 [THEN conjunct2])
  then have again: "cleanupFiles ?dn ?fs {''b.wav'', ''keep.txt''} = (Inr (), {''b.wav'', ''keep.txt''})"
    by (simp only: s)
  from first again show ?thesis by (rule conjI)
qed

section \<open>Claims about the HTTP backend\<close>

lemma catch_ignore_fulfils: "catch_ignore r = Inr ()"
  by (cases r) (simp_all add: catch_ignore_def)

lemma playAudioHttp_fulfils: "fst (playAudioHttp env filePath) = Inr ()"
  by (simp add: playAudioHttp_def split_beta catch_ignore_fulfils)

text \<open>
  C10. \<open>speakHttp\<close> never rejects: for every text, configuration and outcome of the
  fetch, of reading the body, of writing the file and of the shell commands, its promise
  is fulfilled. When the configuration is disabled or the text is empty or only whitespace
  it returns at once, with no fetch, no file and no command.
\<close>

theorem speakHttp_never_rejects:
  "fst (speakHttp input c env) = Inr ()
   \<and> (\<not> enabled c \<or> trim input = [] \<longrightarrow> snd (speakHttp input c env) = [])"
proof -
  have "input = [] \<Longrightarrow> trim input = []"
    by (simp add: trim_def)
  then show ?thesis
    by (auto simp: speakHttp_def split_beta catch_ignore_fulfils)
qed

text \<open>
  A blank text does nothing; a text for which every player fails still ends fulfilled,
  after the three Linux players were tried.
\<close>

theorem speakHttp_never_rejects_witness:
  "trim (js '' '') = []
   \<and> speakHttp (js '' '') \<lparr>enabled = True, maxWorkers = 0, httpFormat = ''wav''\<rparr>
        \<lparr>fetched = FetchThrows, write_ok = False, os_platform = ''linux'',
         shell_ok = (\<lambda>c. False), tmp_path = (\<lambda>ext. ''/tmp/opencode-tts-1.'' @ ext)\<rparr> = (Inr (), [])
   \<and> speakHttp (js ''Hi'') \<lparr>enabled = True, maxWorkers = 0, httpFormat = ''wav''\<rparr>
        \<lparr>fetched = Response True True, write_ok = True, os_platform = ''linux'',
         shell_ok = (\<lambda>c. False), tmp_path = (\<lambda>ext. ''/tmp/opencode-tts-1.'' @ ext)\<rparr>
       = (Inr (), [Fetch, Write ''/tmp/opencode-tts-1.wav'',
                   Shell ''paplay'' ''/tmp/opencode-tts-1.wav'',
                   Shell ''aplay'' ''/tmp/opencode-tts-1.wav'',
                   Shell ''mpv'' ''/tmp/opencode-tts-1.wav''])"
proof -
  let ?c = "\<lparr>enabled = True, maxWorkers = 0, httpFormat = ''wav''\<rparr>"
  let ?e1 = "\<lparr>fetched = FetchThrows, write_ok = False, os_platform = ''linux'',
         shell_ok = (\<lambda>c. False), tmp_path = (\<lambda>ext. ''/tmp/opencode-tts-1.'' @ ext)\<rparr>"
  let ?e2 = "\<lparr>fetched = Response True True, write_ok = True, os_platform = ''linux'',
         shell_ok = (\<lambda>c. False), tmp_path = (\<lambda>ext. ''/tmp/opencode-tts-1.'' @ ext)\<rparr>"
  have b: "trim (js '' '') = []"
    by (simp add: trim_def js_def is_space_def)
  from speakHttp_never_rejects [of "js '' ''" ?c ?e1] b
  have one: "speakHttp (js '' '') ?c ?e1 = (Inr (), [])"
    by (simp add: prod_eq_iff)
  have "snd (speakHttp (js ''Hi'') ?c ?e2) = [Fetch, Write ''/tmp/opencode-tts-1.wav'',
                   Shell ''paplay'' ''/tmp/opencode-tts-1.wav'',
                   Shell ''aplay'' ''/tmp/opencode-tts-1.wav'',
                   Shell ''mpv'' ''/tmp/opencode-tts-1.wav'']"
    by (simp add: speakHttp_def speakHttp_body_def playAudioHttp_def shell_def trim_def js_def
        is_space_def Let_def)
  with speakHttp_never_rejects [of "js ''Hi''" ?c ?e2]
  have two: "speakHttp (js ''Hi'') ?c ?e2 = (Inr (), [Fetch, Write ''/tmp/opencode-tts-1.wav'',
                   Shell ''paplay'' ''/tmp/opencode-tts-1.wav'',
                   Shell ''aplay'' ''/tmp/opencode-tts-1.wav'',
                   Shell ''mpv'' ''/tmp/opencode-tts-1.wav''])"
    by (simp add: prod_eq_iff)
  from b one two show ?thesis by simp
qed

section \<open>Claims about sample encoding\<close>

lemma clamp_sample_cases:
  "clamp_sample x = (case x of Num r \<Rightarrow> Num (max (- 1) (min 1 r)) | NaN \<Rightarrow> NaN
                      | PosInf \<Rightarrow> Num 1 | NegInf \<Rightarrow> Num (- 1))"
  by (cases x) (simp_all add: clamp_sample_def)

lemma wrap16_id: "- 32768 \<le> n \<Longrightarrow> n \<le> 32767 \<Longrightarrow> wrap16 n = n"
  by (simp add: wrap16_def)

lemma trunc_bounds:
  assumes "- 32768 \<le> v" "v \<le> 32767"
  shows "- 32768 \<le> trunc v \<and> trunc v \<le> 32767"
proof (cases "0 \<le> v")
  case True
  then have "trunc v = \<lfloor>v\<rfloor>" by (simp add: trunc_def)
  moreover have "0 \<le> \<lfloor>v\<rfloor>" using True by simp
  moreover have "\<lfloor>v\<rfloor> \<le> 32767" using assms(2) by (simp add: floor_le_iff)
  ultimately show ?thesis by simp
next
  case False
  then have "trunc v = \<lceil>v\<rceil>" by (simp add: trunc_def)
  moreover have "\<lceil>v\<rceil> \<le> 0" using False by (simp add: ceiling_le_iff)
  moreover have "- 32768 \<le> \<lceil>v\<rceil>" using assms(1) by (simp add: le_ceiling_iff)
  ultimately show ?thesis by simp
qed

lemma scale_clamped_bounds:
  assumes "rounding rnd" "- 1 \<le> r" "r \<le> 1"
  shows "\<exists>v. scale_sample rnd (Num r) = Num v \<and> - 32768 \<le> v \<and> v \<le> 32767"
proof (cases "r < 0")
  case True
  have mono: "\<And>x y. x \<le> y \<Longrightarrow> rnd x \<le> rnd y" using assms(1) by (simp add: rounding_def)
  have "- 32768 \<le> r * 32768" using assms(2) by simp
  then have "rnd (- 32768) \<le> rnd (r * 32768)" by (rule mono)
  moreover have "r * 32768 \<le> 0" using True by simp
  then have "rnd (r * 32768) \<le> rnd 0" by (rule mono)
  ultimately have "- 32768 \<le> rnd (r * 32768) \<and> rnd (r * 32768) \<le> 32767"
    using assms(1) by (simp add: rounding_def)
  with True show ?thesis by (simp add: scale_sample_def)
next
  case False
  have mono: "\<And>x y. x \<le> y \<Longrightarrow> rnd x \<le> rnd y" using assms(1) by (simp add: rounding_def)
  have "0 \<le> r * 32767" using False by simp
  then have "rnd 0 \<le> rnd (r * 32767)" by (rule mono)
  moreover have "r * 32767 \<le> 32767" using assms(3) by simp
  then have "rnd (r * 32767) \<le> rnd 32767" by (rule mono)
  ultimately have "- 32768 \<le> rnd (r * 32767) \<and> rnd (r * 32767) \<le> 32767"
    using assms(1) by (simp add: rounding_def)
  with False show ?thesis by (simp add: scale_sample_def)
qed

lemma clamp_sample_range:
  "x \<noteq> NaN \<Longrightarrow> \<exists>r. clamp_sample x = Num r \<and> - 1 \<le> r \<and> r \<le> 1"
  by (cases x) (auto simp: clamp_sample_cases)

text \<open>
  C8, as stated, fails for one sample value: \<open>Math.min(1, NaN)\<close> and
  \<open>Math.max(-1, NaN)\<close> are \<open>NaN\<close>, so a \<open>NaN\<close> sample is not brought into [-1, 1].
\<close>

theorem clamp_sample_NaN:
  "clamp_sample NaN = NaN \<and> (\<nexists>r. clamp_sample NaN = Num r \<and> - 1 \<le> r \<and> r \<le> 1)"
  by (simp add: clamp_sample_def)

text \<open>
  C8, amended. Every sample other than \<open>NaN\<close> is clamped to [-1, 1] before the integer
  conversion; a \<open>NaN\<close> sample stays \<open>NaN\<close> and is written as 0. For every sample the
  scaled value handed to \<open>setInt16\<close> is \<open>NaN\<close> or lies in [-32768, 32767], the value
  written is its truncation with no wrap-around, and lies in [-32768, 32767].
\<close>

theorem encode_sample_in_range:
  assumes "rounding rnd"
  shows "(x \<noteq> NaN \<longrightarrow> (\<exists>r. clamp_sample x = Num r \<and> - 1 \<le> r \<and> r \<le> 1))
       \<and> (x = NaN \<longrightarrow> clamp_sample x = NaN \<and> encode_sample rnd x = 0)
       \<and> (case scale_sample rnd (clamp_sample x) of
             Num v \<Rightarrow> - 32768 \<le> v \<and> v \<le> 32767 \<and> encode_sample rnd x = trunc v
           | NaN \<Rightarrow> True | PosInf \<Rightarrow> False | NegInf \<Rightarrow> False)
       \<and> - 32768 \<le> encode_sample rnd x \<and> encode_sample rnd x \<le> 32767"
proof (cases "x = NaN")
  case True
  then show ?thesis
    by (simp add: clamp_sample_def scale_sample_def encode_sample_def)
next
  case False
  from clamp_sample_range [OF False] obtain r
    where r: "clamp_sample x = Num r" "- 1 \<le> r" "r \<le> 1" by blast
  from scale_clamped_bounds [OF assms r(2,3)] obtain v
    where v: "scale_sample rnd (Num r) = Num v" "- 32768 \<le> v" "v \<le> 32767" by blast
  from trunc_bounds [OF v(2,3)] have t: "- 32768 \<le> trunc v" "trunc v \<le> 32767" by simp_all
  have "encode_sample rnd x = trunc v"
    by (simp add: encode_sample_def r(1) v(1) wrap16_id [OF t])
  with False r v t show ?thesis by simp
qed

theorem encode_sample_in_range_witness:
  "rounding (\<lambda>x. x)
   \<and> encode_sample (\<lambda>x. x) (Num 2.5) = 32767
   \<and> encode_sample (\<lambda>x. x) (Num (- 0.5)) = - 16384
   \<and> encode_sample (\<lambda>x. x) NegInf = - 32768
   \<and> encode_sample (\<lambda>x. x) NaN = 0"
proof -
  have r: "rounding (\<lambda>x. x)" by (simp add: rounding_def)
  have e: "encode_sample (\<lambda>x. x) (Num 2.5) = 32767"
    "encode_sample (\<lambda>x. x) (Num (- 0.5)) = - 16384"
    "encode_sample (\<lambda>x. x) NegInf = - 32768"
    by (simp_all add: encode_sample_def clamp_sample_def scale_sample_def trunc_def wrap16_def)
  from encode_sample_in_range [OF r, of NaN] r e show ?thesis by simp
qed

section \<open>Claims about the player fallback engine\<close>

lemma runCommand_exited:
  "run (length (attempts st)) c = Exited k \<Longrightarrow>
   runCommand run c st = (Inr k, st\<lparr>attempts := attempts st @ [c]\<rparr>)"
  by (simp add: runCommand_def)

lemma runCommand_throws:
  "run (length (attempts st)) c = SpawnThrows \<Longrightarrow>
   runCommand run c st = (Inl SpawnError, st\<lparr>attempts := attempts st @ [c]\<rparr>)"
  by (simp add: runCommand_def)

lemma runCommand_state:
  "snd (runCommand run c st) = st\<lparr>attempts := attempts st @ [c]\<rparr>"
  by (simp add: runCommand_def Let_def split: run_outcome.splits)

lemma tryEach_first_success:
  assumes "i < length ps"
    and "\<forall>j<i. \<exists>k. run (length (attempts st) + j) (cmd (ps ! j)) = Exited k \<and> k \<noteq> 0"
    and "run (length (attempts st) + i) (cmd (ps ! i)) = Exited 0"
  shows "tryEach run ps errs st =
           (Inr Played, st\<lparr>attempts := attempts st @ map cmd (take (Suc i) ps),
                              lastWorkingPlayer := Some (name (ps ! i))\<rparr>)"
  using assms
proof (induction ps arbitrary: i errs st)
  case Nil
  then show ?case by simp
next
  case (Cons p ps)
  show ?case
  proof (cases i)
    case 0
    with Cons.prems(3) have "run (length (attempts st)) (cmd p) = Exited 0" by simp
    then show ?thesis using 0 by (simp add: runCommand_exited)
  next
    case (Suc i')
    from Cons.prems(2) Suc obtain k
      where k: "run (length (attempts st)) (cmd p) = Exited k" "k \<noteq> 0"
      by (auto dest: spec [of _ 0])
    let ?st = "st\<lparr>attempts := attempts st @ [cmd p]\<rparr>"
    have a: "i' < length ps" using Cons.prems(1) Suc by simp
    have b: "\<forall>j<i'. \<exists>k. run (length (attempts ?st) + j) (cmd (ps ! j)) = Exited k \<and> k \<noteq> 0"
    proof (intro allI impI)
      fix j assume "j < i'"
      then have "Suc j < i" using Suc by simp
      with Cons.prems(2) show "\<exists>k. run (length (attempts ?st) + j) (cmd (ps ! j)) = Exited k \<and> k \<noteq> 0"
        by (auto dest: spec [of _ "Suc j"])
    qed
    have c: "run (length (attempts ?st) + i') (cmd (ps ! i')) = Exited 0"
      using Cons.prems(3) Suc by simp
    from Cons.IH [OF a b c, of "errs @ [name p]"] k Suc
    show ?thesis by (simp add: runCommand_exited)
  qed
qed

lemma tryEach_all_fail:
  assumes "\<forall>j<length ps. \<exists>k. run (length (attempts st) + j) (cmd (ps ! j)) = Exited k \<and> k \<noteq> 0"
  shows "tryEach run ps errs st =
           (Inr (Exhausted (errs @ map name ps)), st\<lparr>attempts := attempts st @ map cmd ps\<rparr>)"
  using assms
proof (induction ps arbitrary: errs st)
  case Nil
  then show ?case by simp
next
  case (Cons p ps)
  from Cons.prems obtain k
    where k: "run (length (attempts st)) (cmd p) = Exited k" "k \<noteq> 0"
    by (auto dest: spec [of _ 0])
  let ?st = "st\<lparr>attempts := attempts st @ [cmd p]\<rparr>"
  have b: "\<forall>j<length ps. \<exists>k. run (length (attempts ?st) + j) (cmd (ps ! j)) = Exited k \<and> k \<noteq> 0"
  proof (intro allI impI)
    fix j assume "j < length ps"
    then have "Suc j < length (p # ps)" by simp
    with Cons.prems show "\<exists>k. run (length (attempts ?st) + j) (cmd (ps ! j)) = Exited k \<and> k \<noteq> 0"
      by (auto dest: spec [of _ "Suc j"])
  qed
  from Cons.IH [OF b, of "errs @ [name p]"] k
  show ?case by (simp add: runCommand_exited)
qed

lemma tryEach_played:
  "tryEach run ps errs st = (Inr Played, st1) \<Longrightarrow>
   \<exists>p\<in>set ps. attempts st1 \<noteq> [] \<and> last (attempts st1) = cmd p \<and> lastWorkingPlayer st1 = Some (name p)"
proof (induction ps arbitrary: errs st)
  case Nil
  then show ?case by simp
next
  case (Cons p ps)
  show ?case
  proof (cases "run (length (attempts st)) (cmd p)")
    case SpawnThrows
    with Cons.prems show ?thesis by (simp add: runCommand_throws)
  next
    case (Exited k)
    show ?thesis
    proof (cases "k = 0")
      case True
      with Exited Cons.prems show ?thesis by (auto simp: runCommand_exited)
    next
      case False
      with Exited Cons.prems
      have "tryEach run ps (errs @ [name p]) (st\<lparr>attempts := attempts st @ [cmd p]\<rparr>) = (Inr Played, st1)"
        by (simp add: runCommand_exited)
      from Cons.IH [OF this] show ?thesis by auto
    qed
  qed
qed

lemma tryEach_attempts:
  "\<exists>xs. attempts (snd (tryEach run ps errs st)) = attempts st @ xs
        \<and> (ps \<noteq> [] \<longrightarrow> xs \<noteq> [] \<and> hd xs = cmd (hd ps))"
proof (induction ps arbitrary: errs st)
  case Nil
  then show ?case by simp
next
  case (Cons p ps)
  let ?st = "st\<lparr>attempts := attempts st @ [cmd p]\<rparr>"
  show ?case
  proof (cases "run (length (attempts st)) (cmd p)")
    case SpawnThrows
    then show ?thesis by (simp add: runCommand_throws)
  next
    case (Exited k)
    show ?thesis
    proof (cases "k = 0")
      case True
      with Exited show ?thesis by (simp add: runCommand_exited)
    next
      case False
      from Cons.IH [of "errs @ [name p]" ?st] obtain xs
        where "attempts (snd (tryEach run ps (errs @ [name p]) ?st)) = attempts ?st @ xs" by blast
      with Exited False show ?thesis by (simp add: runCommand_exited)
    qed
  qed
qed

lemma fails_atD: "fails_at run t p \<Longrightarrow> \<exists>k. run t (cmd p) = Exited k \<and> k \<noteq> 0"
  by (cases "run t (cmd p)") (simp_all add: fails_at_def)

lemma candidates_nonempty: "candidates pf f \<noteq> []"
  by (simp add: candidates_def)

lemma candidates_name_nonempty: "p \<in> set (candidates pf f) \<Longrightarrow> name p \<noteq> []"
  by (auto simp: candidates_def ffplay_def split: if_splits)

lemma candidates_distinct: "distinct (map name (candidates pf f))"
  by (simp add: candidates_def ffplay_def)

lemma candidates_same_names: "map name (candidates pf f) = map name (candidates pf g)"
  by (simp add: candidates_def ffplay_def)

lemma find_by_name:
  assumes "p \<in> set ps" and "map name ps' = map name ps"
  shows "\<exists>q. find (\<lambda>q. name q = name p) ps' = Some q"
proof -
  from assms have "name p \<in> set (map name ps')" by simp
  then obtain q where "q \<in> set ps'" "name q = name p" by auto
  then have "find (\<lambda>q. name q = name p) ps' \<noteq> None"
    by (auto simp: find_None_iff)
  then show ?thesis by auto
qed

lemma showToast_attempts: "attempts (showToast cl m st) = attempts st"
  by (cases cl) (simp_all add: showToast_def)

lemma showToast_cache: "lastWorkingPlayer (showToast cl m st) = lastWorkingPlayer st"
  by (cases cl) (simp_all add: showToast_def)

lemma tryPlayers_uncached:
  "lastWorkingPlayer st = None \<Longrightarrow>
   tryPlayers run ps pf cl st =
     (case tryEach run ps [] st of
        (Inl e, st2) \<Rightarrow> (Inl e, st2)
      | (Inr Played, st2) \<Rightarrow> (Inr (), st2)
      | (Inr (Exhausted errors), st2) \<Rightarrow>
          (Inl (PlaybackError (''All audio players failed: '' @ join '', '' errors)),
           showToast cl (getInstallHelp pf errors) st2))"
  by (simp add: tryPlayers_def tryCached_def)

lemma tryPlayers_cache_miss:
  assumes "lastWorkingPlayer st = Some x" and "find (\<lambda>p. name p = x) ps = Some q"
    and "x \<noteq> []" and "fails_at run (length (attempts st)) q"
  shows "tryPlayers run ps pf cl st =
           tryPlayers run ps pf cl (st\<lparr>attempts := attempts st @ [cmd q], lastWorkingPlayer := None\<rparr>)"
proof -
  from fails_atD [OF assms(4)] obtain k
    where k: "run (length (attempts st)) (cmd q) = Exited k" "k \<noteq> 0" by blast
  have "tryCached run ps st = (Inr False, st\<lparr>attempts := attempts st @ [cmd q], lastWorkingPlayer := None\<rparr>)"
    using assms(1-3) k by (simp add: tryCached_def runCommand_exited)
  then show ?thesis
    by (simp add: tryPlayers_def tryCached_def)
qed

lemma tryPlayers_success:
  assumes "tryPlayers run ps pf cl st = (Inr (), st1)"
  shows "\<exists>p\<in>set ps. attempts st1 \<noteq> [] \<and> last (attempts st1) = cmd p \<and> lastWorkingPlayer st1 = Some (name p)"
proof (cases "tryCached run ps st")
  case (Pair r st')
  show ?thesis
  proof (cases r)
    case (Inl e)
    with Pair assms show ?thesis by (simp add: tryPlayers_def)
  next
    case (Inr hit)
    show ?thesis
    proof (cases hit)
      case True
      with Pair Inr assms have st1: "st1 = st'" by (simp add: tryPlayers_def)
      from Pair Inr True obtain x q where
        "lastWorkingPlayer st = Some x" "find (\<lambda>p. name p = x) ps = Some q"
        "st' = st\<lparr>attempts := attempts st @ [cmd q]\<rparr>"
        by (auto simp: tryCached_def runCommand_def Let_def
                 split: option.splits if_splits run_outcome.splits)
      moreover from this(2) have "q \<in> set ps" "name q = x"
        by (auto simp: find_Some_iff)
      ultimately show ?thesis using st1 by auto
    next
      case False
      with Pair Inr assms have "tryEach run ps [] st' = (Inr Played, st1)"
        by (auto simp: tryPlayers_def split: prod.splits sum.splits loop_exit.splits)
      from tryEach_played [OF this] show ?thesis .
    qed
  qed
qed

lemma tryPlayers_attempts:
  "\<exists>xs. attempts (snd (tryPlayers run ps pf cl st)) = attempts st @ xs"
proof -
  obtain r st' where c: "tryCached run ps st = (r, st')" by (cases "tryCached run ps st")
  have a: "\<exists>ys. attempts st' = attempts st @ ys"
    using c by (auto simp: tryCached_def runCommand_def Let_def
                     split: option.splits if_splits run_outcome.splits)
  then obtain ys where ys: "attempts st' = attempts st @ ys" by blast
  from tryEach_attempts [of run ps "[]" st'] obtain zs
    where zs: "attempts (snd (tryEach run ps [] st')) = attempts st' @ zs" by blast
  show ?thesis
    using c ys zs
    by (auto simp: tryPlayers_def showToast_attempts split: prod.splits sum.splits loop_exit.splits bool.splits)
qed

lemma tryPlayers_first_cached:
  assumes "lastWorkingPlayer st = Some x" and "x \<noteq> []" and "find (\<lambda>p. name p = x) ps = Some q"
  shows "first_spawned st (snd (tryPlayers run ps pf cl st)) = Some (cmd q)"
proof -
  let ?st = "st\<lparr>attempts := attempts st @ [cmd q]\<rparr>"
  have "\<exists>xs. attempts (snd (tryPlayers run ps pf cl st)) = attempts st @ cmd q # xs"
  proof (cases "run (length (attempts st)) (cmd q)")
    case SpawnThrows
    with assms show ?thesis
      by (simp add: tryPlayers_def tryCached_def runCommand_throws)
  next
    case (Exited k)
    show ?thesis
    proof (cases "k = 0")
      case True
      with Exited assms show ?thesis
        by (simp add: tryPlayers_def tryCached_def runCommand_exited)
    next
      case False
      with Exited have "fails_at run (length (attempts st)) q" by (simp add: fails_at_def)
      from tryPlayers_cache_miss [OF assms(1,3,2) this]
      have "tryPlayers run ps pf cl st = tryPlayers run ps pf cl (?st\<lparr>lastWorkingPlayer := None\<rparr>)"
        by simp
      moreover from tryPlayers_attempts [of run ps pf cl "?st\<lparr>lastWorkingPlayer := None\<rparr>"]
      obtain xs where "attempts (snd (tryPlayers run ps pf cl (?st\<lparr>lastWorkingPlayer := None\<rparr>)))
                        = attempts st @ cmd q # xs" by auto
      ultimately show ?thesis by auto
    qed
  qed
  then show ?thesis by (auto simp: first_spawned_def spawned_by_def)
qed

lemma tryPlayers_first_uncached:
  assumes "lastWorkingPlayer st = None" and "ps \<noteq> []"
  shows "first_spawned st (snd (tryPlayers run ps pf cl st)) = Some (cmd (hd ps))"
proof -
  from tryEach_attempts [of run ps "[]" st] assms(2) obtain xs
    where xs: "attempts (snd (tryEach run ps [] st)) = attempts st @ xs" "xs \<noteq> []" "hd xs = cmd (hd ps)"
    by blast
  have "attempts (snd (tryPlayers run ps pf cl st)) = attempts (snd (tryEach run ps [] st))"
    by (simp add: tryPlayers_uncached [OF assms(1)] showToast_attempts
             split: prod.splits sum.splits loop_exit.splits)
  with xs show ?thesis
    by (cases xs) (simp_all add: first_spawned_def spawned_by_def)
qed

lemma candidate_named_Some:
  "candidate_named pf f x = Some q \<Longrightarrow> q \<in> set (candidates pf f) \<and> name q = x \<and> x \<noteq> []"
  using candidates_name_nonempty [of q pf f]
  by (auto simp: candidate_named_def find_Some_iff)

lemma playAudio_success_cached:
  assumes "playAudio run pf f cl st = (Inr (), st1)"
  shows "\<exists>p\<in>set (candidates pf f). last (attempts st1) = cmd p \<and> lastWorkingPlayer st1 = Some (name p)
           \<and> (\<exists>q. candidate_named pf g (name p) = Some q
                  \<and> first_spawned st1 (snd (playAudio run' pf g cl' st1)) = Some (cmd q))"
proof -
  from tryPlayers_success [OF assms [unfolded playAudio_def]] obtain p
    where p: "p \<in> set (candidates pf f)" "last (attempts st1) = cmd p"
      "lastWorkingPlayer st1 = Some (name p)" by blast
  from find_by_name [OF p(1) candidates_same_names [of pf g f]] obtain q
    where q: "find (\<lambda>q. name q = name p) (candidates pf g) = Some q" by blast
  have "name p \<noteq> []" by (rule candidates_name_nonempty [OF p(1)])
  from tryPlayers_first_cached [OF p(3) this q]
  have "first_spawned st1 (snd (playAudio run' pf g cl' st1)) = Some (cmd q)"
    by (simp add: playAudio_def)
  with p q show ?thesis by (auto simp: candidate_named_def)
qed

lemma playAudio_cache_miss:
  assumes "lastWorkingPlayer st = Some x" and "candidate_named pf f x = Some q"
    and "fails_at run (length (attempts st)) q"
  shows "playAudio run pf f cl st =
           playAudio run pf f cl (st\<lparr>attempts := attempts st @ [cmd q], lastWorkingPlayer := None\<rparr>)"
proof -
  from candidate_named_Some [OF assms(2)] have "x \<noteq> []" by simp
  with assms show ?thesis
    unfolding playAudio_def candidate_named_def by (intro tryPlayers_cache_miss)
qed

lemma playAudio_first_success:
  assumes "lastWorkingPlayer st = None" and "i < length (candidates pf f)"
    and "\<forall>j<i. fails_at run (length (attempts st) + j) (candidates pf f ! j)"
    and "succeeds_at run (length (attempts st) + i) (candidates pf f ! i)"
  shows "playAudio run pf f cl st =
           (Inr (), st\<lparr>attempts := attempts st @ map cmd (take (Suc i) (candidates pf f)),
                         lastWorkingPlayer := Some (name (candidates pf f ! i))\<rparr>)"
proof -
  have "\<forall>j<i. \<exists>k. run (length (attempts st) + j) (cmd (candidates pf f ! j)) = Exited k \<and> k \<noteq> 0"
    using assms(3) fails_atD by blast
  moreover have "run (length (attempts st) + i) (cmd (candidates pf f ! i)) = Exited 0"
    using assms(4) by (simp add: succeeds_at_def)
  ultimately have "tryEach run (candidates pf f) [] st =
           (Inr Played, st\<lparr>attempts := attempts st @ map cmd (take (Suc i) (candidates pf f)),
                              lastWorkingPlayer := Some (name (candidates pf f ! i))\<rparr>)"
    using assms(2) by (intro tryEach_first_success)
  then show ?thesis
    by (simp add: playAudio_def tryPlayers_uncached [OF assms(1)])
qed

lemma playAudio_all_fail:
  assumes "lastWorkingPlayer st = None"
    and "\<forall>j<length (candidates pf f). fails_at run (length (attempts st) + j) (candidates pf f ! j)"
  shows "playAudio run pf f cl st =
           (Inl (PlaybackError (''All audio players failed: '' @ join '', '' (map name (candidates pf f)))),
            showToast cl (getInstallHelp pf (map name (candidates pf f)))
              (st\<lparr>attempts := attempts st @ map cmd (candidates pf f)\<rparr>))"
proof -
  have "\<forall>j<length (candidates pf f).
          \<exists>k. run (length (attempts st) + j) (cmd (candidates pf f ! j)) = Exited k \<and> k \<noteq> 0"
    using assms(2) fails_atD by blast
  then have "tryEach run (candidates pf f) [] st =
           (Inr (Exhausted (map name (candidates pf f))), st\<lparr>attempts := attempts st @ map cmd (candidates pf f)\<rparr>)"
    using tryEach_all_fail [of "candidates pf f" run st "[]"] by simp
  then show ?thesis
    by (simp add: playAudio_def tryPlayers_uncached [OF assms(1)])
qed

lemma tryEach_exit_codes:
  "fst (tryEach (\<lambda>t c. Exited (code c)) ps errs st) =
     (if \<forall>p\<in>set ps. code (cmd p) \<noteq> 0 then Inr (Exhausted (errs @ map name ps)) else Inr Played)"
  by (induction ps arbitrary: errs st) (simp_all add: runCommand_def Let_def)

lemma tryCached_exit_codes:
  "fst (tryCached (\<lambda>t c. Exited (code c)) ps st) = Inr True \<Longrightarrow> \<exists>p\<in>set ps. code (cmd p) = 0"
  by (auto simp: tryCached_def runCommand_def Let_def find_Some_iff
           split: option.splits if_splits)

lemma tryCached_not_thrown:
  "fst (tryCached (\<lambda>t c. Exited (code c)) ps st) \<noteq> Inl e"
  by (auto simp: tryCached_def runCommand_def Let_def split: option.splits if_splits)

lemma tryPlayers_exit_codes:
  "fst (tryPlayers (\<lambda>t c. Exited (code c)) ps pf cl st) =
     (if \<forall>p\<in>set ps. code (cmd p) \<noteq> 0
      then Inl (PlaybackError (''All audio players failed: '' @ join '', '' (map name ps)))
      else Inr ())"
proof (cases "tryCached (\<lambda>t c. Exited (code c)) ps st")
  case (Pair r st')
  show ?thesis
  proof (cases r)
    case (Inl e)
    with Pair tryCached_not_thrown [of code ps st e] show ?thesis by simp
  next
    case (Inr hit)
    show ?thesis
    proof (cases hit)
      case True
      with Pair Inr tryCached_exit_codes [of code ps st] show ?thesis
        by (auto simp: tryPlayers_def)
    next
      case False
      obtain r2 st2 where l: "tryEach (\<lambda>t c. Exited (code c)) ps [] st' = (r2, st2)"
        by (cases "tryEach (\<lambda>t c. Exited (code c)) ps [] st'")
      with tryEach_exit_codes [of code ps "[]" st']
      have "r2 = (if \<forall>p\<in>set ps. code (cmd p) \<noteq> 0 then Inr (Exhausted (map name ps)) else Inr Played)"
        by simp
      with Pair Inr False l show ?thesis
        by (simp add: tryPlayers_def)
    qed
  qed
qed

text \<open>
  When every spawn starts and the exit code of a command does not change from one attempt
  to the next, a play call fails exactly when every candidate of the platform exits with a
  non-zero code, whatever the cache holds; the error then lists the names of all
  candidates in declared order.
\<close>

theorem playAudio_raises_iff_all_fail:
  "fst (playAudio (\<lambda>t c. Exited (code c)) pf f cl st) =
     (if \<forall>p\<in>set (candidates pf f). code (cmd p) \<noteq> 0
      then Inl (PlaybackError (''All audio players failed: '' @ join '', '' (map name (candidates pf f))))
      else Inr ())"
  by (simp only: playAudio_def tryPlayers_exit_codes)

theorem playAudio_raises_iff_all_fail_witness:
  "fst (playAudio (\<lambda>t c. Exited 1) ''darwin'' ''a.wav'' None
         \<lparr>lastWorkingPlayer = Some ''ffplay'', attempts = [], toasts = []\<rparr>)
     = Inl (PlaybackError ''All audio players failed: afplay, ffplay'')
   \<and> fst (playAudio (\<lambda>t c. Exited (if hd c = ''ffplay'' then 0 else 1)) ''darwin'' ''a.wav'' None
         \<lparr>lastWorkingPlayer = None, attempts = [], toasts = []\<rparr>)
     = Inr ()"
proof -
  have c: "candidates ''darwin'' ''a.wav'' = [\<lparr>cmd = [''afplay'', ''a.wav''], name = ''afplay''\<rparr>, ffplay ''a.wav'']"
    by (simp add: candidates_def)
  from playAudio_raises_iff_all_fail [of "\<lambda>c. 1" "''darwin''" "''a.wav''" None
         "\<lparr>lastWorkingPlayer = Some ''ffplay'', attempts = [], toasts = []\<rparr>"]
  have one: "fst (playAudio (\<lambda>t c. Exited 1) ''darwin'' ''a.wav'' None
         \<lparr>lastWorkingPlayer = Some ''ffplay'', attempts = [], toasts = []\<rparr>)
     = Inl (PlaybackError ''All audio players failed: afplay, ffplay'')"
    by (simp add: c ffplay_def)
  from playAudio_raises_iff_all_fail [of "\<lambda>c. if hd c = ''ffplay'' then 0 else 1" "''darwin''" "''a.wav''" None
         "\<lparr>lastWorkingPlayer = None, attempts = [], toasts = []\<rparr>"]
  have two: "fst (playAudio (\<lambda>t c. Exited (if hd c = ''ffplay'' then 0 else 1)) ''darwin'' ''a.wav'' None
         \<lparr>lastWorkingPlayer = None, attempts = [], toasts = []\<rparr>)
     = Inr ()"
    by (simp add: c ffplay_def)
  from one two show ?thesis by (rule conjI)
qed

text \<open>
  C3, as stated, fails in its last part. With \<open>paplay\<close> cached and every player exiting
  with 1, the call fails and leaves the cache empty; the next call starts with the first
  candidate in declared order, which is \<open>paplay\<close> again. And when the cached attempt of
  \<open>paplay\<close> exits with 1 but its attempt inside the loop exits with 0, the cache names
  \<open>paplay\<close> again and the next call tries it first through the cache.
\<close>

theorem player_retried_first:
  "playAudio (\<lambda>t c. Exited 1) ''linux'' ''a.wav'' None
      \<lparr>lastWorkingPlayer = Some ''paplay'', attempts = [], toasts = []\<rparr>
     = (Inl (PlaybackError ''All audio players failed: paplay, aplay, mpv, ffplay''),
        \<lparr>lastWorkingPlayer = None,
         attempts = [[''paplay'', ''a.wav''], [''paplay'', ''a.wav''], [''aplay'', ''a.wav''],
                     [''mpv'', ''--no-video'', ''--no-terminal'', ''a.wav''],
                     [''ffplay'', ''-autoexit'', ''-nodisp'', ''-loglevel'', ''quiet'', ''a.wav'']],
         toasts = []\<rparr>)
   \<and> first_spawned
        \<lparr>lastWorkingPlayer = None,
         attempts = [[''paplay'', ''a.wav''], [''paplay'', ''a.wav''], [''aplay'', ''a.wav''],
                     [''mpv'', ''--no-video'', ''--no-terminal'', ''a.wav''],
                     [''ffplay'', ''-autoexit'', ''-nodisp'', ''-loglevel'', ''quiet'', ''a.wav'']],
         toasts = []\<rparr>
        (snd (playAudio (\<lambda>t c. Exited 1) ''linux'' ''b.wav'' None
          \<lparr>lastWorkingPlayer = None,
           attempts = [[''paplay'', ''a.wav''], [''paplay'', ''a.wav''], [''aplay'', ''a.wav''],
                       [''mpv'', ''--no-video'', ''--no-terminal'', ''a.wav''],
                       [''ffplay'', ''-autoexit'', ''-nodisp'', ''-loglevel'', ''quiet'', ''a.wav'']],
           toasts = []\<rparr>))
       = Some [''paplay'', ''b.wav'']
   \<and> playAudio (\<lambda>t c. if t = 0 then Exited 1 else Exited 0) ''linux'' ''a.wav'' None
      \<lparr>lastWorkingPlayer = Some ''paplay'', attempts = [], toasts = []\<rparr>
     = (Inr (), \<lparr>lastWorkingPlayer = Some ''paplay'',
                  attempts = [[''paplay'', ''a.wav''], [''paplay'', ''a.wav'']], toasts = []\<rparr>)
   \<and> first_spawned
        \<lparr>lastWorkingPlayer = Some ''paplay'',
           attempts = [[''paplay'', ''a.wav''], [''paplay'', ''a.wav'']], toasts = []\<rparr>
        (snd (playAudio (\<lambda>t c. if t = 0 then Exited 1 else Exited 0) ''linux'' ''b.wav'' None
          \<lparr>lastWorkingPlayer = Some ''paplay'',
             attempts = [[''paplay'', ''a.wav''], [''paplay'', ''a.wav'']], toasts = []\<rparr>))
       = Some [''paplay'', ''b.wav'']"
  by (simp add: playAudio_def tryPlayers_def tryCached_def runCommand_def candidates_def ffplay_def
      showToast_def first_spawned_def spawned_by_def)

text \<open>
  C3, amended. (1) After a play call succeeds, the cache names the candidate that was run
  last, and the next play call spawns first the candidate of that name, found by name in
  the platform list. (2) When the cached candidate exits with a non-zero code, the call
  goes on exactly as a call with an empty cache does after that one attempt. (3) A call
  with an empty cache runs the candidates in declared order, stops at the first that exits
  with 0 and sets the cache to its name. (4) When every candidate exits with a non-zero
  code, the call fails with the cache left empty, and the next call starts with the first
  candidate in declared order. An attempt whose spawn throws is outside this statement.
\<close>

theorem player_cache_behaviour:
  "(playAudio run pf f cl st = (Inr (), st1) \<longrightarrow>
      (\<exists>p\<in>set (candidates pf f). last (attempts st1) = cmd p \<and> lastWorkingPlayer st1 = Some (name p)
         \<and> (\<exists>q. candidate_named pf g (name p) = Some q
                \<and> first_spawned st1 (snd (playAudio run' pf g cl' st1)) = Some (cmd q))))
   \<and> (lastWorkingPlayer st = Some x \<and> candidate_named pf f x = Some c
        \<and> fails_at run (length (attempts st)) c \<longrightarrow>
      playAudio run pf f cl st =
        playAudio run pf f cl (st\<lparr>attempts := attempts st @ [cmd c], lastWorkingPlayer := None\<rparr>))
   \<and> (lastWorkingPlayer st = None \<and> i < length (candidates pf f)
        \<and> (\<forall>j<i. fails_at run (length (attempts st) + j) (candidates pf f ! j))
        \<and> succeeds_at run (length (attempts st) + i) (candidates pf f ! i) \<longrightarrow>
      playAudio run pf f cl st =
        (Inr (), st\<lparr>attempts := attempts st @ map cmd (take (Suc i) (candidates pf f)),
                      lastWorkingPlayer := Some (name (candidates pf f ! i))\<rparr>))
   \<and> (lastWorkingPlayer st = None
        \<and> (\<forall>j<length (candidates pf f). fails_at run (length (attempts st) + j) (candidates pf f ! j)) \<longrightarrow>
      (\<exists>e st'. playAudio run pf f cl st = (Inl e, st') \<and> lastWorkingPlayer st' = None
          \<and> first_spawned st' (snd (playAudio run' pf g cl' st')) = Some (cmd (hd (candidates pf g)))))"
proof (intro conjI impI)
  assume "playAudio run pf f cl st = (Inr (), st1)"
  then show "\<exists>p\<in>set (candidates pf f). last (attempts st1) = cmd p \<and> lastWorkingPlayer st1 = Some (name p)
         \<and> (\<exists>q. candidate_named pf g (name p) = Some q
                \<and> first_spawned st1 (snd (playAudio run' pf g cl' st1)) = Some (cmd q))"
    by (rule playAudio_success_cached)
next
  assume "lastWorkingPlayer st = Some x \<and> candidate_named pf f x = Some c
        \<and> fails_at run (length (attempts st)) c"
  then have "lastWorkingPlayer st = Some x" and "candidate_named pf f x = Some c"
    and "fails_at run (length (attempts st)) c"
    by blast+
  then show "playAudio run pf f cl st =
        playAudio run pf f cl (st\<lparr>attempts := attempts st @ [cmd c], lastWorkingPlayer := None\<rparr>)"
    by (rule playAudio_cache_miss)
next
  assume "lastWorkingPlayer st = None \<and> i < length (candidates pf f)
        \<and> (\<forall>j<i. fails_at run (length (attempts st) + j) (candidates pf f ! j))
        \<and> succeeds_at run (length (attempts st) + i) (candidates pf f ! i)"
  then have "lastWorkingPlayer st = None" and "i < length (candidates pf f)"
    and "\<forall>j<i. fails_at run (length (attempts st) + j) (candidates pf f ! j)"
    and "succeeds_at run (length (attempts st) + i) (candidates pf f ! i)"
    by blast+
  then show "playAudio run pf f cl st =
        (Inr (), st\<lparr>attempts := attempts st @ map cmd (take (Suc i) (candidates pf f)),
                      lastWorkingPlayer := Some (name (candidates pf f ! i))\<rparr>)"
    by (rule playAudio_first_success)
next
  assume a: "lastWorkingPlayer st = None
        \<and> (\<forall>j<length (candidates pf f). fails_at run (length (attempts st) + j) (candidates pf f ! j))"
  let ?st = "showToast cl (getInstallHelp pf (map name (candidates pf f)))
              (st\<lparr>attempts := attempts st @ map cmd (candidates pf f)\<rparr>)"
  from a have a1: "lastWorkingPlayer st = None"
    and a2: "\<forall>j<length (candidates pf f). fails_at run (length (attempts st) + j) (candidates pf f ! j)"
    by blast+
  have r: "playAudio run pf f cl st =
           (Inl (PlaybackError (''All audio players failed: '' @ join '', '' (map name (candidates pf f)))), ?st)"
    by (rule playAudio_all_fail [OF a1 a2])
  from a1 have n: "lastWorkingPlayer ?st = None"
    by (simp add: showToast_cache)
  from tryPlayers_first_uncached [OF n candidates_nonempty]
  have "first_spawned ?st (snd (playAudio run' pf g cl' ?st)) = Some (cmd (hd (candidates pf g)))"
    by (simp add: playAudio_def)
  with r n show "\<exists>e st'. playAudio run pf f cl st = (Inl e, st') \<and> lastWorkingPlayer st' = None
          \<and> first_spawned st' (snd (playAudio run' pf g cl' st')) = Some (cmd (hd (candidates pf g)))"
    by blast
qed

text \<open>
  Linux, two calls: the first finds \<open>aplay\<close>; the second tries \<open>aplay\<close> first, which now
  fails, and falls through the list to \<open>mpv\<close>.
\<close>

theorem player_cache_behaviour_witness:
  "playAudio (\<lambda>t c. if t = 1 \<or> t = 5 then Exited 0 else Exited 1) ''linux'' ''a.wav'' None
      \<lparr>lastWorkingPlayer = None, attempts = [], toasts = []\<rparr>
     = (Inr (), \<lparr>lastWorkingPlayer = Some ''aplay'',
                  attempts = [[''paplay'', ''a.wav''], [''aplay'', ''a.wav'']], toasts = []\<rparr>)
   \<and> first_spawned
        \<lparr>lastWorkingPlayer = Some ''aplay'',
           attempts = [[''paplay'', ''a.wav''], [''aplay'', ''a.wav'']], toasts = []\<rparr>
        (snd (playAudio (\<lambda>t c. if t = 1 \<or> t = 5 then Exited 0 else Exited 1) ''linux'' ''b.wav'' None
               \<lparr>lastWorkingPlayer = Some ''aplay'',
                  attempts = [[''paplay'', ''a.wav''], [''aplay'', ''a.wav'']], toasts = []\<rparr>))
       = Some [''aplay'', ''b.wav'']
   \<and> playAudio (\<lambda>t c. if t = 1 \<or> t = 5 then Exited 0 else Exited 1) ''linux'' ''b.wav'' None
        \<lparr>lastWorkingPlayer = Some ''aplay'',
           attempts = [[''paplay'', ''a.wav''], [''aplay'', ''a.wav'']], toasts = []\<rparr>
     = (Inr (), \<lparr>lastWorkingPlayer = Some ''mpv'',
                  attempts = [[''paplay'', ''a.wav''], [''aplay'', ''a.wav''], [''aplay'', ''b.wav''],
                              [''paplay'', ''b.wav''], [''aplay'', ''b.wav''],
                              [''mpv'', ''--no-video'', ''--no-terminal'', ''b.wav'']],
                  toasts = []\<rparr>)"
proof -
  let ?run = "\<lambda>t c. if t = 1 \<or> t = 5 then Exited 0 else Exited (1 :: int)"
  let ?st0 = "\<lparr>lastWorkingPlayer = None, attempts = [], toasts = []\<rparr>"
  let ?st1 = "\<lparr>lastWorkingPlayer = Some ''aplay'',
                attempts = [[''paplay'', ''a.wav''], [''aplay'', ''a.wav'']], toasts = []\<rparr>"
  have c: "candidates ''linux'' ''b.wav'' =
     [\<lparr>cmd = [''paplay'', ''b.wav''], name = ''paplay''\<rparr>,
      \<lparr>cmd = [''aplay'', ''b.wav''], name = ''aplay''\<rparr>,
      \<lparr>cmd = [''mpv'', ''--no-video'', ''--no-terminal'', ''b.wav''], name = ''mpv''\<rparr>,
      ffplay ''b.wav'']"
    by (simp add: candidates_def)
  have one: "playAudio ?run ''linux'' ''a.wav'' None ?st0 = (Inr (), ?st1)"
    by (simp add: playAudio_def tryPlayers_def tryCached_def runCommand_def candidates_def)
  have named: "candidate_named ''linux'' ''b.wav'' ''aplay'' = Some \<lparr>cmd = [''aplay'', ''b.wav''], name = ''aplay''\<rparr>"
    by (simp add: candidate_named_def c)
  have miss: "fails_at ?run (length (attempts ?st1)) \<lparr>cmd = [''aplay'', ''b.wav''], name = ''aplay''\<rparr>"
    by (simp add: fails_at_def)
  note t = player_cache_behaviour
  have two: "playAudio ?run ''linux'' ''b.wav'' None ?st1 =
      playAudio ?run ''linux'' ''b.wav'' None
        (?st1\<lparr>attempts := attempts ?st1 @ [[''aplay'', ''b.wav'']], lastWorkingPlayer := None\<rparr>)"
    using t [of ?run "''linux''" "''b.wav''" None ?st1 ?st1 "''b.wav''" ?run None "''aplay''"
               "\<lparr>cmd = [''aplay'', ''b.wav''], name = ''aplay''\<rparr>" 0]
      named miss by simp
  have three: "playAudio ?run ''linux'' ''b.wav'' None
        (?st1\<lparr>attempts := attempts ?st1 @ [[''aplay'', ''b.wav'']], lastWorkingPlayer := None\<rparr>)
     = (Inr (), \<lparr>lastWorkingPlayer = Some ''mpv'',
                  attempts = [[''paplay'', ''a.wav''], [''aplay'', ''a.wav''], [''aplay'', ''b.wav''],
                              [''paplay'', ''b.wav''], [''aplay'', ''b.wav''],
                              [''mpv'', ''--no-video'', ''--no-terminal'', ''b.wav'']],
                  toasts = []\<rparr>)"
    by (simp add: playAudio_def tryPlayers_def tryCached_def runCommand_def c)
  have first: "first_spawned ?st1 (snd (playAudio ?run ''linux'' ''b.wav'' None ?st1)) = Some [''aplay'', ''b.wav'']"
    by (simp only: two three) (simp add: first_spawned_def spawned_by_def)
  from one first two three show ?thesis by simp
qed

text \<open>
  C4 at an input where the first candidate cannot be started: on Linux, \<open>Bun.spawn\<close>
  throws for \<open>paplay\<close> while every other player would exit with 0. The call rejects with
  the spawn error after this single attempt; no other candidate is tried, no name is
  collected and no toast is shown.
\<close>

theorem playAudio_spawn_failure_aborts:
  "playAudio (\<lambda>t c. if hd c = ''paplay'' then SpawnThrows else Exited 0) ''linux'' ''a.wav'' (Some True)
      \<lparr>lastWorkingPlayer = None, attempts = [], toasts = []\<rparr>
     = (Inl SpawnError, \<lparr>lastWorkingPlayer = None, attempts = [[''paplay'', ''a.wav'']], toasts = []\<rparr>)"
  by (simp add: playAudio_def tryPlayers_def tryCached_def runCommand_def candidates_def)

section \<open>Claims about the streaming coordinator\<close>

lemma resume_fields:
  "cancelToken (resume env a st) = cancelToken st + bumps env a"
  "trace (resume env a st) = trace st"
  "files (resume env a st) = files st"
  "disk (resume env a st) = disk st"
  "settled (resume env a st) = settled st"
  "maxWorkers (cfg (resume env a st)) = maxWorkers (cfg st)"
  "enabled (cfg (resume env a st)) = (case enabled_after env a of None \<Rightarrow> enabled (cfg st) | Some b \<Rightarrow> b)"
  by (simp_all add: resume_def pool_shutdown_def Let_def split: option.splits)

lemma resume_pool:
  "bumps env a = 0 \<Longrightarrow> pending (resume env a st) = pending st"
  "bumps env a = 0 \<Longrightarrow> rejected (resume env a st) = rejected st"
  by (simp_all add: resume_def Let_def)

lemma await_play_fields:
  "cancelToken (await_play env i p st) = cancelToken st + bumps env (AwaitPlay i)"
  "trace (await_play env i p st) = trace st @ [PlayStart i p, PlayEnd i (play_result env i)]"
  "files (await_play env i p st) = files st"
  "disk (await_play env i p st) = disk st"
  "settled (await_play env i p st) = settled st"
  "enabled (cfg (await_play env i p st)) =
     (case enabled_after env (AwaitPlay i) of None \<Rightarrow> enabled (cfg st) | Some b \<Rightarrow> b)"
  by (simp_all add: await_play_def Let_def resume_fields split: option.splits)

lemma await_play_pool:
  "bumps env (AwaitPlay i) = 0 \<Longrightarrow> pending (await_play env i p st) = pending st"
  "bumps env (AwaitPlay i) = 0 \<Longrightarrow> rejected (await_play env i p st) = rejected st"
  by (simp_all add: await_play_def Let_def resume_pool)

lemma pool_settles_fields:
  "cancelToken (pool_settles env k st) = cancelToken st"
  "cfg (pool_settles env k st) = cfg st"
  "trace (pool_settles env k st) = trace st"
  "files (pool_settles env k st) = files st"
  "rejected (pool_settles env k st) = rejected st"
  "disk st \<subseteq> disk (pool_settles env k st)"
  "set (settled (pool_settles env k st)) \<union> set (pending (pool_settles env k st))
     = set (settled st) \<union> set (pending st)"
proof -
  have "set (take k (pending st)) \<union> set (drop k (pending st)) = set (pending st)"
    by (simp only: set_append [symmetric] append_take_drop_id)
  then show "set (settled (pool_settles env k st)) \<union> set (pending (pool_settles env k st))
     = set (settled st) \<union> set (pending st)"
    by (auto simp: pool_settles_def)
qed (auto simp: pool_settles_def)

lemma await_task_fields:
  "trace (snd (await_task env i st)) = trace st"
  "files (snd (await_task env i st)) = files st"
  by (simp_all add: await_task_def Let_def resume_fields pool_settles_fields pool_finishes_def)

lemma await_task_resumed:
  assumes "fst (await_task env i st) \<noteq> Hangs"
  shows "cancelToken (snd (await_task env i st)) = cancelToken st + bumps env (AwaitTask i)"
    and "enabled (cfg (snd (await_task env i st)))
           = (case enabled_after env (AwaitTask i) of None \<Rightarrow> enabled (cfg st) | Some b \<Rightarrow> b)"
  using assms
  by (simp_all add: await_task_def Let_def resume_fields pool_settles_fields pool_finishes_def
        split: if_splits option.splits)

lemma await_task_Path:
  "fst (await_task env i st) = Path p \<Longrightarrow> task_result env i = Some p"
  by (auto simp: await_task_def Let_def task_end_of_def split: if_splits option.splits)

lemma await_task_undisturbed:
  assumes "bumps env (AwaitTask i) = 0" and "rejected st = []"
    and "i \<in> set (settled st) \<union> set (pending st)"
  shows "fst (await_task env i st) = task_end_of env i"
    and "rejected (snd (await_task env i st)) = []"
    and "set (settled (snd (await_task env i st))) \<union> set (pending (snd (await_task env i st)))
           = set (settled st) \<union> set (pending st)"
  using assms
  by (auto simp: await_task_def Let_def resume_fields resume_pool pool_settles_fields
        simp del: Un_iff)

lemma sequential_plays_Suc:
  "sequential_plays path result (Suc k) =
     sequential_plays path result k @ [PlayStart k (path k), PlayEnd k (result k)]"
  by (simp add: sequential_plays_def)

lemma play_calls_append: "play_calls (xs @ ys) = play_calls xs @ play_calls ys"
  by (induction xs rule: play_calls.induct) simp_all

lemma play_calls_sequential: "play_calls (sequential_plays path result k) = [0..<k]"
  by (induction k) (simp_all add: sequential_plays_Suc play_calls_append, simp add: sequential_plays_def)

lemma stopped_resume:
  assumes "undisturbed env" and "\<not> stopped token st"
  shows "\<not> stopped token (resume env a st)"
proof -
  from assms(1) have "bumps env a = 0" and "enabled_after env a \<noteq> Some False"
    by (simp_all add: undisturbed_def)
  with assms(2) show ?thesis
    by (cases "enabled_after env a") (auto simp: stopped_def resume_fields)
qed

lemma stopped_await_play:
  assumes "undisturbed env" and "\<not> stopped token st"
  shows "\<not> stopped token (await_play env i p st)"
proof -
  from assms(1) have "bumps env (AwaitPlay i) = 0" and "enabled_after env (AwaitPlay i) \<noteq> Some False"
    by (simp_all add: undisturbed_def)
  with assms(2) show ?thesis
    by (cases "enabled_after env (AwaitPlay i)") (auto simp: stopped_def await_play_fields)
qed

lemma stopped_fields:
  "cancelToken st' = cancelToken st \<Longrightarrow> cfg st' = cfg st \<Longrightarrow> stopped token st' = stopped token st"
  by (simp add: stopped_def)

lemma playDirect_trace:
  assumes path: "\<And>j p. write_path env j = Some p \<Longrightarrow> path j = p"
  shows "trace st = sequential_plays path (play_result env) i \<Longrightarrow> i \<le> n \<Longrightarrow>
         \<exists>k. i \<le> k \<and> k \<le> n \<and>
             trace (snd (playDirect env token n i st)) = sequential_plays path (play_result env) k"
proof (induction "n - i" arbitrary: i st)
  case 0
  then have "playDirect env token n i st = (Resolved, st)"
    by (simp add: playDirect.simps)
  with 0 show ?case by auto
next
  case (Suc m)
  then have lt: "i < n" by simp
  let ?st1 = "resume env (AwaitGenerate i) st"
  show ?case
  proof (cases "stopped token st \<or> \<not> generate_ok env i \<or> write_path env i = None")
    case True
    then have "trace (snd (playDirect env token n i st)) = trace st"
      using lt by (subst playDirect.simps) (auto simp: Let_def resume_fields)
    with Suc.prems show ?thesis by auto
  next
    case False
    then obtain p where p: "write_path env i = Some p" by auto
    let ?st2 = "(resume env (AwaitWrite i) ?st1)\<lparr>disk := insert p (disk ?st1), files := files ?st1 @ [p]\<rparr>"
    let ?st3 = "await_play env i p ?st2"
    have t3: "trace ?st3 = sequential_plays path (play_result env) (Suc i)"
      using Suc.prems(1) path [OF p]
      by (simp add: await_play_fields resume_fields sequential_plays_Suc)
    show ?thesis
    proof (cases "stopped token ?st2")
      case True
      with False p lt have "playDirect env token n i st = (Resolved, ?st2)"
        by (subst playDirect.simps) (simp add: Let_def)
      with Suc.prems show ?thesis by (auto simp: resume_fields)
    next
      case ns: False
      show ?thesis
      proof (cases "play_result env i")
        case (Inl e)
        with False p lt ns have "playDirect env token n i st = (Rejected e, ?st3)"
          by (subst playDirect.simps) (simp add: Let_def)
        with t3 lt show ?thesis by (intro exI [of _ "Suc i"]) simp
      next
        case (Inr v)
        with False p lt ns
        have "playDirect env token n i st = playDirect env token n (Suc i) ?st3"
          by (subst playDirect.simps) (simp add: Let_def)
        moreover from Suc.hyps(2) have "m = n - Suc i" by simp
        from Suc.hyps(1) [OF this t3] lt obtain k
          where "Suc i \<le> k" "k \<le> n"
            "trace (snd (playDirect env token n (Suc i) ?st3)) = sequential_plays path (play_result env) k"
          by auto
        ultimately show ?thesis by (intro exI [of _ k]) simp
      qed
    qed
  qed
qed

lemma playDirect_settles: "fst (playDirect env token n i st) \<noteq> NeverSettles"
proof (induction env token n i st rule: playDirect.induct)
  case (1 env token n i st)
  show ?case
    by (subst playDirect.simps) (use 1 in \<open>auto simp: Let_def split: option.splits sum.splits\<close>)
qed

lemma playDirect_disk:
  "disk st \<subseteq> D \<union> set (files st) \<Longrightarrow>
   disk (snd (playDirect env token n i st)) \<subseteq> D \<union> set (files (snd (playDirect env token n i st)))"
proof (induction env token n i st rule: playDirect.induct)
  case (1 env token n i st)
  show ?case
  proof (cases "i < n \<and> \<not> stopped token st \<and> generate_ok env i")
    case False
    then show ?thesis
      using "1.prems" by (subst (1 2) playDirect.simps) (auto simp: Let_def resume_fields)
  next
    case True
    let ?st1 = "resume env (AwaitGenerate i) st"
    show ?thesis
    proof (cases "write_path env i")
      case None
      with True show ?thesis
        using "1.prems" by (subst (1 2) playDirect.simps) (auto simp: Let_def resume_fields)
    next
      case (Some p)
      let ?st2 = "(resume env (AwaitWrite i) ?st1)\<lparr>disk := insert p (disk ?st1), files := files ?st1 @ [p]\<rparr>"
      let ?st3 = "await_play env i p ?st2"
      have d2: "disk ?st2 \<subseteq> D \<union> set (files ?st2)"
        using "1.prems" by (auto simp: resume_fields)
      then have d3: "disk ?st3 \<subseteq> D \<union> set (files ?st3)"
        by (simp add: await_play_fields)
      show ?thesis
      proof (cases "stopped token ?st2")
        case True
        with \<open>i < n \<and> \<not> stopped token st \<and> generate_ok env i\<close> Some
        have "playDirect env token n i st = (Resolved, ?st2)"
          by (subst playDirect.simps) (simp add: Let_def)
        with d2 show ?thesis by simp
      next
        case ns: False
        show ?thesis
        proof (cases "play_result env i")
          case (Inl e)
          with \<open>i < n \<and> \<not> stopped token st \<and> generate_ok env i\<close> Some ns
          have "playDirect env token n i st = (Rejected e, ?st3)"
            by (subst playDirect.simps) (simp add: Let_def)
          with d3 show ?thesis by simp
        next
          case (Inr v)
          with \<open>i < n \<and> \<not> stopped token st \<and> generate_ok env i\<close> Some ns
          have e: "playDirect env token n i st = playDirect env token n (Suc i) ?st3"
            by (subst playDirect.simps) (simp add: Let_def)
          from \<open>i < n \<and> \<not> stopped token st \<and> generate_ok env i\<close>
          have "disk (snd (playDirect env token n (Suc i) ?st3))
                  \<subseteq> D \<union> set (files (snd (playDirect env token n (Suc i) ?st3)))"
            by (intro "1.IH" [OF _ _ refl _ Some refl ns refl Inr d3]) simp_all
          with e show ?thesis by simp
        qed
      qed
    qed
  qed
qed

lemma playDirect_complete:
  assumes path: "\<And>j p. write_path env j = Some p \<Longrightarrow> path j = p"
    and u: "undisturbed env"
    and ok: "\<forall>j<n. play_result env j = Inr () \<and> generate_ok env j \<and> write_path env j \<noteq> None"
  shows "\<not> stopped token st \<Longrightarrow> trace st = sequential_plays path (play_result env) i \<Longrightarrow> i \<le> n \<Longrightarrow>
         fst (playDirect env token n i st) = Resolved \<and>
         trace (snd (playDirect env token n i st)) = sequential_plays path (play_result env) n"
proof (induction "n - i" arbitrary: i st)
  case 0
  then have "playDirect env token n i st = (Resolved, st)" and "i = n"
    by (simp_all add: playDirect.simps)
  with 0 show ?case by simp
next
  case (Suc m)
  then have lt: "i < n" by simp
  with ok obtain p where p: "write_path env i = Some p" and g: "generate_ok env i"
    and r: "play_result env i = Inr ()" by auto
  let ?st1 = "resume env (AwaitGenerate i) st"
  let ?st2 = "(resume env (AwaitWrite i) ?st1)\<lparr>disk := insert p (disk ?st1), files := files ?st1 @ [p]\<rparr>"
  let ?st3 = "await_play env i p ?st2"
  have "\<not> stopped token (resume env (AwaitWrite i) ?st1)"
    by (intro stopped_resume u Suc.prems(1))
  then have ns2: "\<not> stopped token ?st2"
    by (simp add: stopped_def)
  then have ns3: "\<not> stopped token ?st3"
    by (rule stopped_await_play [OF u])
  have t3: "trace ?st3 = sequential_plays path (play_result env) (Suc i)"
    using Suc.prems(2) path [OF p]
    by (simp add: await_play_fields resume_fields sequential_plays_Suc)
  have "playDirect env token n i st = playDirect env token n (Suc i) ?st3"
    using lt Suc.prems(1) g p ns2 r by (subst playDirect.simps) (simp add: Let_def)
  moreover from Suc.hyps(2) have "m = n - Suc i" by simp
  from Suc.hyps(1) [OF this ns3 t3] lt
  have "fst (playDirect env token n (Suc i) ?st3) = Resolved \<and>
         trace (snd (playDirect env token n (Suc i) ?st3)) = sequential_plays path (play_result env) n"
    by simp
  ultimately show ?case by simp
qed

lemma playDirect_bumped:
  assumes "trace st = []" and "token = cancelToken st"
    and "0 < bumps env (AwaitGenerate 0) + bumps env (AwaitWrite 0)"
  shows "trace (snd (playDirect env token n 0 st)) = []"
proof -
  let ?st1 = "resume env (AwaitGenerate 0) st"
  have "\<And>p. stopped token ((resume env (AwaitWrite 0) ?st1)\<lparr>disk := insert p (disk ?st1), files := files ?st1 @ [p]\<rparr>)"
    using assms(2,3) by (simp add: stopped_def resume_fields)
  then show ?thesis
    using assms(1)
    by (subst playDirect.simps) (auto simp: Let_def resume_fields split: option.splits)
qed

lemma playFromWorkers_trace:
  assumes path: "\<And>j p. task_result env j = Some p \<Longrightarrow> path j = p"
  shows "trace st = sequential_plays path (play_result env) i \<Longrightarrow> i \<le> n \<Longrightarrow>
         \<exists>k. i \<le> k \<and> k \<le> n \<and>
             trace (snd (playFromWorkers env token n i st)) = sequential_plays path (play_result env) k"
proof (induction "n - i" arbitrary: i st)
  case 0
  then have "playFromWorkers env token n i st = (Resolved, st)"
    by (simp add: playFromWorkers.simps)
  with 0 show ?case by auto
next
  case (Suc m)
  then have lt: "i < n" by simp
  obtain r st1 where at: "await_task env i st = (r, st1)" by (cases "await_task env i st")
  from await_task_fields(1) [of env i st] at have t1: "trace st1 = trace st" by simp
  show ?case
  proof (cases "stopped token st \<or> r = Hangs \<or> r = Fails")
    case True
    then have "trace (snd (playFromWorkers env token n i st)) = trace st"
      using lt at t1 by (subst playFromWorkers.simps) auto
    with Suc.prems show ?thesis by auto
  next
    case False
    then obtain p where r: "r = Path p" by (cases r) auto
    with at have "fst (await_task env i st) = Path p" by simp
    then have p: "task_result env i = Some p" by (rule await_task_Path)
    let ?st2 = "st1\<lparr>files := files st1 @ [p]\<rparr>"
    let ?st3 = "await_play env i p (pool_settles env (generated_during_play env i) ?st2)"
    have t3: "trace ?st3 = sequential_plays path (play_result env) (Suc i)"
      using Suc.prems(1) path [OF p] t1
      by (simp add: await_play_fields pool_settles_fields sequential_plays_Suc)
    show ?thesis
    proof (cases "stopped token ?st2")
      case True
      with False at r lt have "playFromWorkers env token n i st = (Resolved, ?st2)"
        by (subst playFromWorkers.simps) (simp add: Let_def)
      with Suc.prems t1 show ?thesis by auto
    next
      case ns: False
      show ?thesis
      proof (cases "play_result env i")
        case (Inl e)
        with False at r lt ns have "playFromWorkers env token n i st = (Rejected e, ?st3)"
          by (subst playFromWorkers.simps) (simp add: Let_def)
        with t3 lt show ?thesis by (intro exI [of _ "Suc i"]) simp
      next
        case (Inr v)
        with False at r lt ns
        have "playFromWorkers env token n i st = playFromWorkers env token n (Suc i) ?st3"
          by (subst playFromWorkers.simps) (simp add: Let_def)
        moreover from Suc.hyps(2) have "m = n - Suc i" by simp
        from Suc.hyps(1) [OF this t3] lt obtain k
          where "Suc i \<le> k" "k \<le> n"
            "trace (snd (playFromWorkers env token n (Suc i) ?st3)) = sequential_plays path (play_result env) k"
          by auto
        ultimately show ?thesis by (intro exI [of _ k]) simp
      qed
    qed
  qed
qed

lemma playFromWorkers_complete:
  assumes path: "\<And>j p. task_result env j = Some p \<Longrightarrow> path j = p"
    and u: "undisturbed env"
    and ok: "\<forall>j<n. play_result env j = Inr () \<and> task_result env j \<noteq> None"
  shows "\<not> stopped token st \<Longrightarrow> trace st = sequential_plays path (play_result env) i \<Longrightarrow> i \<le> n \<Longrightarrow>
         {i..<n} \<subseteq> set (settled st) \<union> set (pending st) \<Longrightarrow> rejected st = [] \<Longrightarrow>
         fst (playFromWorkers env token n i st) = Resolved \<and>
         trace (snd (playFromWorkers env token n i st)) = sequential_plays path (play_result env) n"
proof (induction "n - i" arbitrary: i st)
  case 0
  then have "playFromWorkers env token n i st = (Resolved, st)" and "i = n"
    by (simp_all add: playFromWorkers.simps)
  with 0 show ?case by simp
next
  case (Suc m)
  then have lt: "i < n" by simp
  with ok obtain p where p: "task_result env i = Some p"
    and r: "play_result env i = Inr ()" by auto
  from u have b: "bumps env (AwaitTask i) = 0" "bumps env (AwaitPlay i) = 0"
    and e: "enabled_after env (AwaitTask i) \<noteq> Some False"
    by (simp_all add: undisturbed_def)
  from lt Suc.prems(4) have i: "i \<in> set (settled st) \<union> set (pending st)" by auto
  obtain st1 where st1: "st1 = snd (await_task env i st)" by simp
  note f = await_task_undisturbed [OF b(1) Suc.prems(5) i]
  from f(1) p have at: "await_task env i st = (Path p, st1)"
    by (simp add: st1 task_end_of_def prod_eq_iff)
  then have "fst (await_task env i st) \<noteq> Hangs" by simp
  note g = await_task_resumed [OF this]
  let ?st2 = "st1\<lparr>files := files st1 @ [p]\<rparr>"
  let ?st2' = "pool_settles env (generated_during_play env i) ?st2"
  let ?st3 = "await_play env i p ?st2'"
  have ns1: "\<not> stopped token st1"
    using Suc.prems(1) g b(1) e
    by (cases "enabled_after env (AwaitTask i)") (auto simp: stopped_def st1)
  then have ns2: "\<not> stopped token ?st2"
    by (simp add: stopped_def)
  then have "\<not> stopped token ?st2'"
    by (simp add: stopped_def pool_settles_fields)
  then have ns3: "\<not> stopped token ?st3"
    by (rule stopped_await_play [OF u])
  have t3: "trace ?st3 = sequential_plays path (play_result env) (Suc i)"
    using Suc.prems(2) path [OF p] await_task_fields(1) [of env i st]
    by (simp add: await_play_fields pool_settles_fields sequential_plays_Suc st1)
  have rj: "rejected ?st3 = []"
    using f(2) b(2) by (simp add: await_play_pool pool_settles_fields st1)
  have "set (settled ?st2) \<union> set (pending ?st2) = set (settled st) \<union> set (pending st)"
    using f(3) by (simp add: st1)
  then have eq: "set (settled ?st3) \<union> set (pending ?st3) = set (settled st) \<union> set (pending st)"
    using b(2) by (simp only: await_play_fields await_play_pool pool_settles_fields)
  have "{Suc i..<n} \<subseteq> {i..<n}" by auto
  with Suc.prems(4) have "{Suc i..<n} \<subseteq> set (settled st) \<union> set (pending st)"
    by (rule subset_trans [rotated])
  then have s3: "{Suc i..<n} \<subseteq> set (settled ?st3) \<union> set (pending ?st3)"
    by (simp only: eq)
  have "playFromWorkers env token n i st = playFromWorkers env token n (Suc i) ?st3"
    using lt Suc.prems(1) at ns2 r by (subst playFromWorkers.simps) (simp add: Let_def)
  moreover from Suc.hyps(2) have "m = n - Suc i" by simp
  from Suc.hyps(1) [OF this ns3 t3 _ s3 rj] lt
  have "fst (playFromWorkers env token n (Suc i) ?st3) = Resolved \<and>
         trace (snd (playFromWorkers env token n (Suc i) ?st3)) = sequential_plays path (play_result env) n"
    by simp
  ultimately show ?case by simp
qed

lemma playFromWorkers_bumped:
  assumes "trace st = []" and "token = cancelToken st"
    and "0 < bumps env (AwaitTask 0)"
  shows "trace (snd (playFromWorkers env token n 0 st)) = []"
proof -
  obtain r st1 where at: "await_task env 0 st = (r, st1)" by (cases "await_task env 0 st")
  from await_task_fields(1) [of env 0 st] at assms(1) have t1: "trace st1 = []" by simp
  show ?thesis
  proof (cases r)
    case (Path p)
    with at have "fst (await_task env 0 st) \<noteq> Hangs" by simp
    from await_task_resumed(1) [OF this] at assms(2,3)
    have "stopped token (st1\<lparr>files := files st1 @ [p]\<rparr>)"
      by (simp add: stopped_def)
    with at Path t1 assms(1) show ?thesis
      by (subst playFromWorkers.simps) (simp add: Let_def)
  next
    case Fails
    with at t1 assms(1) show ?thesis
      by (subst playFromWorkers.simps) simp
  next
    case Hangs
    with at t1 assms(1) show ?thesis
      by (subst playFromWorkers.simps) simp
  qed
qed

lemma finally_cleanup_result:
  "fst (finally_cleanup env rs) = fst rs"
proof (cases rs)
  case (Pair r st)
  then show ?thesis
    using cleanupFiles_result [of "denied env" "files st" "disk st"]
    by (cases r) (simp_all add: finally_cleanup_def split_beta)
qed

lemma finally_cleanup_fields:
  "trace (snd (finally_cleanup env rs)) = trace (snd rs)"
  "files (snd (finally_cleanup env rs)) = files (snd rs)"
proof -
  obtain r st where rs: "rs = (r, st)" by (cases rs)
  show "trace (snd (finally_cleanup env rs)) = trace (snd rs)"
    unfolding rs by (cases r) (simp_all add: finally_cleanup_def split_beta)
  show "files (snd (finally_cleanup env rs)) = files (snd rs)"
    unfolding rs by (cases r) (simp_all add: finally_cleanup_def split_beta)
qed

lemma finally_cleanup_disk:
  assumes "fst rs \<noteq> NeverSettles"
  shows "disk (snd (finally_cleanup env rs))
           = disk (snd rs) - set (filter (\<lambda>f. \<not> denied env f) (files (snd rs)))"
proof -
  obtain r st where rs: "rs = (r, st)" by (cases rs)
  with assms show ?thesis
    using cleanupFiles_disk [of "denied env" "files st" "disk st"]
    by (cases r) (simp_all add: finally_cleanup_def split_beta)
qed

lemma speakLocal_shape:
  assumes "st2 = (resume env AwaitInit (fresh c token d))\<lparr>files := []\<rparr>"
    and "n = length (splitText (trim input))"
  shows "(\<exists>st'. speakLocal input env (fresh c token d) = (Resolved, st')
            \<and> trace st' = [] \<and> files st' = [] \<and> disk st' = d
            \<and> \<not> (enabled c \<and> trim input \<noteq> [] \<and> init_ready env \<and> bumps env AwaitInit = 0
                  \<and> n \<noteq> 0 \<and> (direct_mode c env \<or> init_pool env)))
       \<or> (enabled c \<and> trim input \<noteq> [] \<and> init_ready env \<and> bumps env AwaitInit = 0 \<and> n \<noteq> 0
            \<and> direct_mode c env
            \<and> speakLocal input env (fresh c token d) = finally_cleanup env (playDirect env token n 0 st2))
       \<or> (enabled c \<and> trim input \<noteq> [] \<and> init_ready env \<and> bumps env AwaitInit = 0 \<and> n \<noteq> 0
            \<and> \<not> direct_mode c env \<and> init_pool env
            \<and> speakLocal input env (fresh c token d) =
                finally_cleanup env
                  (playFromWorkers env token n 0 (st2\<lparr>pending := filter (\<lambda>j. j < n) (completion env)\<rparr>)))"
  unfolding assms
  by (simp add: speakLocal_def Let_def resume_fields direct_mode_def)
     (simp add: fresh_def resume_def pool_shutdown_def Let_def)

lemma st2_fields:
  assumes "st2 = (resume env AwaitInit (fresh c token d))\<lparr>files := []\<rparr>"
  shows "trace st2 = []" "files st2 = []" "disk st2 = d"
    "cancelToken st2 = token + bumps env AwaitInit"
    "enabled (cfg st2) = (case enabled_after env AwaitInit of None \<Rightarrow> enabled c | Some b \<Rightarrow> b)"
    "settled st2 = []" "rejected st2 = []"
  unfolding assms
  by (simp_all add: resume_fields fresh_def split: option.splits)
     (simp add: resume_def pool_shutdown_def Let_def)

lemma chunk_path_direct:
  "direct_mode c env \<Longrightarrow> write_path env j = Some p \<Longrightarrow> chunk_path c env j = p"
  by (simp add: chunk_path_def)

lemma chunk_path_pool:
  "\<not> direct_mode c env \<Longrightarrow> task_result env j = Some p \<Longrightarrow> chunk_path c env j = p"
  by (simp add: chunk_path_def)

lemma speakLocal_trace_prefix:
  "\<exists>k\<le>length (splitText (trim input)).
     trace (snd (speakLocal input env (fresh c token d)))
       = sequential_plays (chunk_path c env) (play_result env) k"
proof -
  define st2 where "st2 = (resume env AwaitInit (fresh c token d))\<lparr>files := []\<rparr>"
  define n where "n = length (splitText (trim input))"
  note f = st2_fields [OF st2_def]
  have z: "trace st2 = sequential_plays (chunk_path c env) (play_result env) 0"
    by (simp add: f sequential_plays_def)
  from speakLocal_shape [OF st2_def n_def]
  consider (early) st' where "speakLocal input env (fresh c token d) = (Resolved, st')" "trace st' = []"
    | (direct) "direct_mode c env"
        "speakLocal input env (fresh c token d) = finally_cleanup env (playDirect env token n 0 st2)"
    | (pool) "\<not> direct_mode c env"
        "speakLocal input env (fresh c token d) =
           finally_cleanup env
             (playFromWorkers env token n 0 (st2\<lparr>pending := filter (\<lambda>j. j < n) (completion env)\<rparr>))"
    by blast
  then have "\<exists>k\<le>n. trace (snd (speakLocal input env (fresh c token d)))
       = sequential_plays (chunk_path c env) (play_result env) k"
  proof cases
    case early
    then show ?thesis by (intro exI [of _ 0]) (simp add: sequential_plays_def)
  next
    case direct
    from playDirect_trace [of env "chunk_path c env" st2 0 n token, OF chunk_path_direct [OF direct(1)] z]
    obtain k where "k \<le> n"
      "trace (snd (playDirect env token n 0 st2)) = sequential_plays (chunk_path c env) (play_result env) k"
      by auto
    then show ?thesis
      by (intro exI [of _ k])
         (simp add: direct(2) finally_cleanup_fields)
  next
    case pool
    let ?st = "st2\<lparr>pending := filter (\<lambda>j. j < n) (completion env)\<rparr>"
    have "trace ?st = sequential_plays (chunk_path c env) (play_result env) 0"
      using z by simp
    from playFromWorkers_trace [of env "chunk_path c env" ?st 0 n token, OF chunk_path_pool [OF pool(1)] this]
    obtain k where "k \<le> n"
      "trace (snd (playFromWorkers env token n 0 ?st)) = sequential_plays (chunk_path c env) (play_result env) k"
      by auto
    then show ?thesis
      by (intro exI [of _ k])
         (simp add: pool(2) finally_cleanup_fields)
  qed
  then show ?thesis by (simp add: n_def)
qed

lemma speakLocal_complete:
  assumes "enabled c" and "trim input \<noteq> []" and "init_ready env" and "undisturbed env"
    and "all_succeed c env (length (splitText (trim input)))"
  shows "fst (speakLocal input env (fresh c token d)) = Resolved
       \<and> trace (snd (speakLocal input env (fresh c token d)))
           = sequential_plays (chunk_path c env) (play_result env) (length (splitText (trim input)))"
proof -
  define st2 where "st2 = (resume env AwaitInit (fresh c token d))\<lparr>files := []\<rparr>"
  define n where "n = length (splitText (trim input))"
  note f = st2_fields [OF st2_def]
  have z: "trace st2 = sequential_plays (chunk_path c env) (play_result env) 0"
    by (simp add: f sequential_plays_def)
  from assms(4) have b0: "bumps env AwaitInit = 0" and e0: "enabled_after env AwaitInit \<noteq> Some False"
    by (simp_all add: undisturbed_def)
  have ns: "\<not> stopped token st2"
    using b0 e0 assms(1) by (cases "enabled_after env AwaitInit") (auto simp: stopped_def f)
  from assms(5) have mode: "direct_mode c env \<or> init_pool env"
    and ok: "\<forall>i<n. play_result env i = Inr () \<and>
        (if direct_mode c env then generate_ok env i \<and> write_path env i \<noteq> None
         else i \<in> set (completion env) \<and> task_result env i \<noteq> None)"
    by (simp_all add: all_succeed_def n_def)
  from speakLocal_shape [OF st2_def n_def] assms(1-3) b0 mode
  consider (none) "n = 0" "speakLocal input env (fresh c token d) = (Resolved, snd (speakLocal input env (fresh c token d)))"
        "trace (snd (speakLocal input env (fresh c token d))) = []"
    | (direct) "direct_mode c env"
        "speakLocal input env (fresh c token d) = finally_cleanup env (playDirect env token n 0 st2)"
    | (pool) "\<not> direct_mode c env"
        "speakLocal input env (fresh c token d) =
           finally_cleanup env
             (playFromWorkers env token n 0 (st2\<lparr>pending := filter (\<lambda>j. j < n) (completion env)\<rparr>))"
    by auto
  then have "fst (speakLocal input env (fresh c token d)) = Resolved
       \<and> trace (snd (speakLocal input env (fresh c token d)))
           = sequential_plays (chunk_path c env) (play_result env) n"
  proof cases
    case none
    then show ?thesis by (simp add: sequential_plays_def) (metis fst_conv)
  next
    case direct
    from ok direct(1) have "\<forall>j<n. play_result env j = Inr () \<and> generate_ok env j \<and> write_path env j \<noteq> None"
      by simp
    from playDirect_complete [of env "chunk_path c env" n token st2 0,
           OF chunk_path_direct [OF direct(1)] assms(4) this ns z]
    have "fst (playDirect env token n 0 st2) = Resolved"
      "trace (snd (playDirect env token n 0 st2)) = sequential_plays (chunk_path c env) (play_result env) n"
      by simp_all
    then show ?thesis
      by (simp add: direct(2) finally_cleanup_result finally_cleanup_fields)
  next
    case pool
    let ?st = "st2\<lparr>pending := filter (\<lambda>j. j < n) (completion env)\<rparr>"
    from ok pool(1) have ok': "\<forall>j<n. play_result env j = Inr () \<and> task_result env j \<noteq> None"
      and c: "\<forall>j<n. j \<in> set (completion env)"
      by simp_all
    have ns': "\<not> stopped token ?st" using ns by (simp add: stopped_def)
    have z': "trace ?st = sequential_plays (chunk_path c env) (play_result env) 0" using z by simp
    have s: "{0..<n} \<subseteq> set (settled ?st) \<union> set (pending ?st)" using c by auto
    have rj: "rejected ?st = []" by (simp add: f)
    from playFromWorkers_complete [of env "chunk_path c env" n token ?st 0,
           OF chunk_path_pool [OF pool(1)] assms(4) ok' ns' z' _ s rj]
    have "fst (playFromWorkers env token n 0 ?st) = Resolved"
      "trace (snd (playFromWorkers env token n 0 ?st)) = sequential_plays (chunk_path c env) (play_result env) n"
      by simp_all
    then show ?thesis
      by (simp add: pool(2) finally_cleanup_result finally_cleanup_fields)
  qed
  then show ?thesis by (simp add: n_def)
qed

lemma hello_world_chunks: "length (splitText (trim (js ''Hello. World!''))) = 2"
  by code_simp

lemma speakLocal_bumped_no_play:
  assumes "bumped_before_play c env"
  shows "trace (snd (speakLocal input env (fresh c token d))) = []"
proof -
  define st2 where "st2 = (resume env AwaitInit (fresh c token d))\<lparr>files := []\<rparr>"
  define n where "n = length (splitText (trim input))"
  note f = st2_fields [OF st2_def]
  from speakLocal_shape [OF st2_def n_def]
  consider (early) st' where "speakLocal input env (fresh c token d) = (Resolved, st')" "trace st' = []"
    | (direct) "bumps env AwaitInit = 0" "direct_mode c env"
        "speakLocal input env (fresh c token d) = finally_cleanup env (playDirect env token n 0 st2)"
    | (pool) "bumps env AwaitInit = 0" "\<not> direct_mode c env"
        "speakLocal input env (fresh c token d) =
           finally_cleanup env
             (playFromWorkers env token n 0 (st2\<lparr>pending := filter (\<lambda>j. j < n) (completion env)\<rparr>))"
    by (elim disjE exE conjE) blast+
  then show ?thesis
  proof cases
    case early
    then show ?thesis by simp
  next
    case direct
    with assms have "0 < bumps env (AwaitGenerate 0) + bumps env (AwaitWrite 0)"
      by (simp add: bumped_before_play_def)
    moreover have "token = cancelToken st2" using direct(1) by (simp add: f)
    ultimately have "trace (snd (playDirect env token n 0 st2)) = []"
      using f(1) by (intro playDirect_bumped)
    then show ?thesis by (simp add: direct(3) finally_cleanup_fields)
  next
    case pool
    let ?st = "st2\<lparr>pending := filter (\<lambda>j. j < n) (completion env)\<rparr>"
    from pool assms have "0 < bumps env (AwaitTask 0)"
      by (simp add: bumped_before_play_def)
    moreover have "token = cancelToken ?st" using pool(1) by (simp add: f)
    moreover have "trace ?st = []" by (simp add: f)
    ultimately have "trace (snd (playFromWorkers env token n 0 ?st)) = []"
      by (intro playFromWorkers_bumped)
    then show ?thesis by (simp add: pool(3) finally_cleanup_fields)
  qed
qed

lemma speakLocal_direct_disk:
  assumes "direct_mode c env"
    and "p \<in> disk (snd (speakLocal input env (fresh c token d)))"
  shows "p \<in> d \<or> denied env p"
proof -
  define st2 where "st2 = (resume env AwaitInit (fresh c token d))\<lparr>files := []\<rparr>"
  define n where "n = length (splitText (trim input))"
  note f = st2_fields [OF st2_def]
  from speakLocal_shape [OF st2_def n_def] assms(1)
  consider (early) st' where "speakLocal input env (fresh c token d) = (Resolved, st')" "disk st' = d"
    | (direct) "speakLocal input env (fresh c token d) = finally_cleanup env (playDirect env token n 0 st2)"
    by blast
  then show ?thesis
  proof cases
    case early
    with assms(2) show ?thesis by simp
  next
    case direct
    let ?rs = "playDirect env token n 0 st2"
    have "disk st2 \<subseteq> d \<union> set (files st2)" by (simp add: f)
    then have sub: "disk (snd ?rs) \<subseteq> d \<union> set (files (snd ?rs))"
      by (rule playDirect_disk)
    have "disk (snd (finally_cleanup env ?rs))
            = disk (snd ?rs) - set (filter (\<lambda>f. \<not> denied env f) (files (snd ?rs)))"
      by (rule finally_cleanup_disk [OF playDirect_settles])
    with assms(2) sub show ?thesis
      by (auto simp: direct)
  qed
qed

lemma speakLocal_direct_settles:
  assumes "direct_mode c env"
  shows "fst (speakLocal input env (fresh c token d)) \<noteq> NeverSettles"
proof -
  define st2 where "st2 = (resume env AwaitInit (fresh c token d))\<lparr>files := []\<rparr>"
  define n where "n = length (splitText (trim input))"
  from speakLocal_shape [OF st2_def n_def] assms
  consider (early) st' where "speakLocal input env (fresh c token d) = (Resolved, st')"
    | (direct) "speakLocal input env (fresh c token d) = finally_cleanup env (playDirect env token n 0 st2)"
    by blast
  then show ?thesis
  proof cases
    case early
    then show ?thesis by simp
  next
    case direct
    then show ?thesis by (simp add: finally_cleanup_result playDirect_settles)
  qed
qed

text \<open>
  C1, as stated, fails: a playback that fails ends the invocation. With two chunks, nothing
  cancelling or disabling the invocation and every player failing on chunk 0, the promise
  of \<open>playAudio\<close> rejects inside the loop, the loop is left, and chunk 1 is never played:
  the play calls are [0], not [0, 1].
\<close>

theorem speakLocal_stops_at_failed_playback:
  "undisturbed broken_player_env
   \<and> length (splitText (trim (js ''Hello. World!''))) = 2
   \<and> fst (speakLocal (js ''Hello. World!'') broken_player_env (fresh direct_config 0 {}))
       = Rejected (PlaybackError ''All audio players failed: afplay, ffplay'')
   \<and> play_calls (trace (snd (speakLocal (js ''Hello. World!'') broken_player_env (fresh direct_config 0 {}))))
       = [0]"
proof -
  have u: "undisturbed broken_player_env"
    by (simp add: undisturbed_def broken_player_env_def calm_env_def)
  have r: "fst (speakLocal (js ''Hello. World!'') broken_player_env (fresh direct_config 0 {}))
       = Rejected (PlaybackError ''All audio players failed: afplay, ffplay'')"
    by code_simp
  have p: "play_calls (trace (snd (speakLocal (js ''Hello. World!'') broken_player_env (fresh direct_config 0 {}))))
       = [0]"
    by code_simp
  from u hello_world_chunks r p show ?thesis by simp
qed

text \<open>
  C1, amended. For every speak invocation with N chunks, in either mode and whatever the
  order in which the pool's generations complete, the log of the invocation consists of
  the plays of chunks 0, 1, ..., k - 1 for some k \<open>\<le>\<close> N, in this order, the return of
  each play call coming before the next call. When the invocation is enabled, the text is
  not blank, the back end is ready, nothing cancels or disables the invocation mid-stream
  and every generation and every playback of the N chunks succeeds, then k = N and the
  invocation resolves.
\<close>

theorem speakLocal_play_order:
  "\<exists>k\<le>length (splitText (trim input)).
     trace (snd (speakLocal input env (fresh c token d)))
       = sequential_plays (chunk_path c env) (play_result env) k
     \<and> play_calls (trace (snd (speakLocal input env (fresh c token d)))) = [0..<k]
     \<and> (enabled c \<and> trim input \<noteq> [] \<and> init_ready env \<and> undisturbed env
          \<and> all_succeed c env (length (splitText (trim input)))
        \<longrightarrow> k = length (splitText (trim input))
            \<and> fst (speakLocal input env (fresh c token d)) = Resolved)"
proof (cases "enabled c \<and> trim input \<noteq> [] \<and> init_ready env \<and> undisturbed env
          \<and> all_succeed c env (length (splitText (trim input)))")
  case True
  then have "fst (speakLocal input env (fresh c token d)) = Resolved
       \<and> trace (snd (speakLocal input env (fresh c token d)))
           = sequential_plays (chunk_path c env) (play_result env) (length (splitText (trim input)))"
    by (intro speakLocal_complete) simp_all
  then show ?thesis
    by (intro exI [of _ "length (splitText (trim input))"]) (simp add: play_calls_sequential)
next
  case False
  from speakLocal_trace_prefix [of input env c token d] obtain k
    where "k \<le> length (splitText (trim input))"
      "trace (snd (speakLocal input env (fresh c token d)))
         = sequential_plays (chunk_path c env) (play_result env) k"
    by blast
  with False show ?thesis
    by (intro exI [of _ k]) (auto simp: play_calls_sequential)
qed

text \<open>
  Pool mode, two chunks, the second generated before the first: the plays are 0, then 1.
\<close>

theorem speakLocal_play_order_witness:
  "enabled pool_config \<and> trim (js ''Hello. World!'') \<noteq> [] \<and> init_ready calm_env
   \<and> undisturbed calm_env \<and> all_succeed pool_config calm_env 2
   \<and> completion calm_env = [1, 0]
   \<and> fst (speakLocal (js ''Hello. World!'') calm_env (fresh pool_config 0 {})) = Resolved
   \<and> trace (snd (speakLocal (js ''Hello. World!'') calm_env (fresh pool_config 0 {})))
       = [PlayStart 0 ''chunk0.wav'', PlayEnd 0 (Inr ()), PlayStart 1 ''chunk1.wav'', PlayEnd 1 (Inr ())]
   \<and> play_calls (trace (snd (speakLocal (js ''Hello. World!'') calm_env (fresh pool_config 0 {}))))
       = [0, 1]"
proof -
  have e: "enabled pool_config" by (simp add: pool_config_def)
  have t: "trim (js ''Hello. World!'') \<noteq> []" by (simp add: trim_def js_def is_space_def)
  have i: "init_ready calm_env" by (simp add: calm_env_def)
  have u: "undisturbed calm_env" by (simp add: undisturbed_def calm_env_def)
  have m: "\<not> direct_mode pool_config calm_env" by (simp add: direct_mode_def pool_config_def)
  have a: "all_succeed pool_config calm_env 2"
    by (simp add: all_succeed_def m) (auto simp: calm_env_def)
  have c: "completion calm_env = [1, 0]" by (simp add: calm_env_def)
  have s: "sequential_plays (chunk_path pool_config calm_env) (play_result calm_env) 2
       = [PlayStart 0 ''chunk0.wav'', PlayEnd 0 (Inr ()), PlayStart 1 ''chunk1.wav'', PlayEnd 1 (Inr ())]"
    by (simp add: sequential_plays_def chunk_path_def m numeral_2_eq_2) (simp add: calm_env_def wav_def)
  from speakLocal_play_order [of "js ''Hello. World!''" calm_env pool_config 0 "{}"]
  obtain k where k: "k \<le> length (splitText (trim (js ''Hello. World!'')))"
    "trace (snd (speakLocal (js ''Hello. World!'') calm_env (fresh pool_config 0 {})))
       = sequential_plays (chunk_path pool_config calm_env) (play_result calm_env) k"
    "play_calls (trace (snd (speakLocal (js ''Hello. World!'') calm_env (fresh pool_config 0 {})))) = [0..<k]"
    "enabled pool_config \<and> trim (js ''Hello. World!'') \<noteq> [] \<and> init_ready calm_env \<and> undisturbed calm_env
          \<and> all_succeed pool_config calm_env (length (splitText (trim (js ''Hello. World!''))))
        \<longrightarrow> k = length (splitText (trim (js ''Hello. World!'')))
            \<and> fst (speakLocal (js ''Hello. World!'') calm_env (fresh pool_config 0 {})) = Resolved"
    by blast
  from k(4) e t i u a have k2: "k = 2"
    and r: "fst (speakLocal (js ''Hello. World!'') calm_env (fresh pool_config 0 {})) = Resolved"
    by (simp_all add: hello_world_chunks)
  have "[0..<2] = [0, Suc 0]" by (simp add: numeral_2_eq_2)
  with k(2,3) k2 s e t i u a c r show ?thesis by simp
qed

text \<open>
  The parts of C2 that hold on every path. If the cancellation token is bumped after the
  invocation captured it and before any chunk is played, the invocation makes no play
  call, in either mode. In direct mode the invocation always settles and the cleanup
  covers every file written for it: nothing is on disk afterwards that was not there
  before, but for deletions the operating system refused.
\<close>

theorem speakLocal_cancel_direct_cleanup:
  "(bumped_before_play c env \<longrightarrow>
      play_calls (trace (snd (speakLocal input env (fresh c token d)))) = [])
   \<and> (direct_mode c env \<longrightarrow>
      fst (speakLocal input env (fresh c token d)) \<noteq> NeverSettles
      \<and> (\<forall>p\<in>disk (snd (speakLocal input env (fresh c token d))). p \<in> d \<or> denied env p))"
  using speakLocal_bumped_no_play [of c env input token d]
    speakLocal_direct_disk [of c env _ input token d]
    speakLocal_direct_settles [of c env input token d]
  by auto

text \<open>
  Direct mode, cancelled while the first file is written: no play call, and the file that
  was written is deleted.
\<close>

theorem speakLocal_cancel_direct_cleanup_witness:
  "bumped_before_play direct_config (cancel_at (AwaitWrite 0))
   \<and> direct_mode direct_config (cancel_at (AwaitWrite 0))
   \<and> fst (speakLocal (js ''Hello. World!'') (cancel_at (AwaitWrite 0)) (fresh direct_config 0 {''notes.txt''})) = Resolved
   \<and> play_calls (trace (snd (speakLocal (js ''Hello. World!'') (cancel_at (AwaitWrite 0)) (fresh direct_config 0 {''notes.txt''})))) = []
   \<and> files (snd (speakLocal (js ''Hello. World!'') (cancel_at (AwaitWrite 0)) (fresh direct_config 0 {''notes.txt''}))) = [''chunk0.wav'']
   \<and> ''chunk0.wav'' \<notin> disk (snd (speakLocal (js ''Hello. World!'') (cancel_at (AwaitWrite 0)) (fresh direct_config 0 {''notes.txt''})))"
proof -
  let ?env = "cancel_at (AwaitWrite 0)"
  let ?out = "speakLocal (js ''Hello. World!'') ?env (fresh direct_config 0 {''notes.txt''})"
  have m: "direct_mode direct_config ?env"
    by (simp add: direct_mode_def direct_config_def cancel_at_def calm_env_def)
  have b: "bumped_before_play direct_config ?env"
    by (simp add: bumped_before_play_def m) (simp add: cancel_at_def)
  have r: "fst ?out = Resolved"
    by code_simp
  have f: "files (snd ?out) = [''chunk0.wav'']"
    by code_simp
  have nd: "\<not> denied ?env ''chunk0.wav''"
    by (simp add: cancel_at_def calm_env_def)
  note t = speakLocal_cancel_direct_cleanup [of direct_config ?env "js ''Hello. World!''" 0 "{''notes.txt''}"]
  from t b have p: "play_calls (trace (snd ?out)) = []" by blast
  from t m have "\<forall>p\<in>disk (snd ?out). p \<in> {''notes.txt''} \<or> denied ?env p" by blast
  with nd have g: "''chunk0.wav'' \<notin> disk (snd ?out)" by auto
  from b m r p f g show ?thesis by simp
qed

text \<open>
  C2, in pool mode, is broken by the code. The cleanup in \<open>finally\<close> deletes the files whose
  paths are in \<open>files\<close>, and in pool mode a path gets there only when the loop has awaited
  its task. Two chunks, the workers finish chunk 1 before chunk 0, and \<open>cancelLocalSpeak\<close>
  runs while the loop awaits task 0: the token is bumped before any chunk is played, the
  pool is shut down and the handle of task 0 is rejected, so the loop is left with \<open>files\<close>
  empty. No chunk is played, and the file \<open>chunk1.wav\<close> that was produced for the invocation
  stays on disk. The direct-mode loop, cancelled while its first file is written, leaves
  nothing behind.
\<close>

theorem speakLocal_pool_leaves_file:
  "bumped_before_play pool_config (cancel_at (AwaitTask 0))
   \<and> \<not> direct_mode pool_config (cancel_at (AwaitTask 0))
   \<and> completion (cancel_at (AwaitTask 0)) = [1, 0]
   \<and> task_result (cancel_at (AwaitTask 0)) 1 = Some ''chunk1.wav''
   \<and> denied (cancel_at (AwaitTask 0)) ''chunk1.wav'' = False
   \<and> fst (speakLocal (js ''Hello. World!'') (cancel_at (AwaitTask 0)) (fresh pool_config 0 {}))
       = Rejected TaskError
   \<and> play_calls (trace (snd (speakLocal (js ''Hello. World!'') (cancel_at (AwaitTask 0)) (fresh pool_config 0 {})))) = []
   \<and> files (snd (speakLocal (js ''Hello. World!'') (cancel_at (AwaitTask 0)) (fresh pool_config 0 {}))) = []
   \<and> settled (snd (speakLocal (js ''Hello. World!'') (cancel_at (AwaitTask 0)) (fresh pool_config 0 {}))) = [1]
   \<and> rejected (snd (speakLocal (js ''Hello. World!'') (cancel_at (AwaitTask 0)) (fresh pool_config 0 {}))) = [0]
   \<and> disk (snd (speakLocal (js ''Hello. World!'') (cancel_at (AwaitTask 0)) (fresh pool_config 0 {}))) = {''chunk1.wav''}
   \<and> disk (snd (speakLocal (js ''Hello. World!'') (cancel_at (AwaitWrite 0)) (fresh direct_config 0 {}))) = {}"
proof -
  let ?env = "cancel_at (AwaitTask 0)"
  let ?out = "speakLocal (js ''Hello. World!'') ?env (fresh pool_config 0 {})"
  have m: "\<not> direct_mode pool_config ?env"
    by (simp add: direct_mode_def pool_config_def)
  have b: "bumped_before_play pool_config ?env"
    by (simp add: bumped_before_play_def m) (simp add: cancel_at_def)
  have c: "completion ?env = [1, 0]"
    by (simp add: cancel_at_def calm_env_def)
  have t: "task_result ?env 1 = Some ''chunk1.wav''"
    by (simp add: cancel_at_def calm_env_def wav_def)
  have n: "denied ?env ''chunk1.wav'' = False"
    by (simp add: cancel_at_def calm_env_def)
  have r: "fst ?out = Rejected TaskError"
    by code_simp
  have p: "play_calls (trace (snd ?out)) = []"
    by code_simp
  have f: "files (snd ?out) = []"
    by code_simp
  have s: "settled (snd ?out) = [1]"
    by code_simp
  have j: "rejected (snd ?out) = [0]"
    by code_simp
  have d: "disk (snd ?out) = {''chunk1.wav''}"
    by code_simp
  have e: "disk (snd (speakLocal (js ''Hello. World!'') (cancel_at (AwaitWrite 0)) (fresh direct_config 0 {}))) = {}"
    by code_simp
  from m b c t n r p f s j d e show ?thesis by simp
qed

text \<open>
  Read at the file itself: \<open>chunk1.wav\<close> was produced for the invocation (task 1 was
  finished with it), the loop never received its path, and it is on disk when the
  invocation has settled, though the operating system would not have refused to delete it.
\<close>

theorem speakLocal_pool_leaves_file_witness:
  "1 \<in> set (settled (snd (speakLocal (js ''Hello. World!'') (cancel_at (AwaitTask 0)) (fresh pool_config 0 {}))))
   \<and> task_result (cancel_at (AwaitTask 0)) 1 = Some ''chunk1.wav''
   \<and> ''chunk1.wav'' \<notin> set (files (snd (speakLocal (js ''Hello. World!'') (cancel_at (AwaitTask 0)) (fresh pool_config 0 {}))))
   \<and> ''chunk1.wav'' \<in> disk (snd (speakLocal (js ''Hello. World!'') (cancel_at (AwaitTask 0)) (fresh pool_config 0 {})))
   \<and> \<not> denied (cancel_at (AwaitTask 0)) ''chunk1.wav''
   \<and> fst (speakLocal (js ''Hello. World!'') (cancel_at (AwaitTask 0)) (fresh pool_config 0 {})) \<noteq> NeverSettles"
  using speakLocal_pool_leaves_file by simp

end
